theory Spec2Isabelle
  imports Main "HOL-Library.Word"
begin

section \<open>Memory and data model\<close>

text \<open>
  The program is \<^verbatim>\<open>src/win_thread_pool.c\<close>; line numbers are lines of that file.
  Pointers are addresses; \<open>None\<close> is the C null pointer. The heap is split by the type
  of the object: pool structures, task records and byte buffers (argument copies and the
  callers' own buffers). An address that a map does not know is not allocated (never
  allocated, or freed): reading through it is a fault of the model. A function pointer is
  the address of the function; a thread handle is a number.
\<close>

type_synonym addr = nat
type_synonym byte = "8 word"
type_synonym taskFunc = nat
type_synonym HANDLE = nat

text \<open>\<open>struct Task\<close>; the field \<open>next\<close> is called \<open>nxt\<close> here.\<close>

record Task =
  task :: taskFunc
  taskArgs :: "addr option"
  nxt :: "addr option"

text \<open>
  \<open>struct ThreadPool\<close>. \<open>running\<close> is an \<open>int8_t\<close>, \<open>threadNum\<close> an \<open>int32_t\<close>
  (read as a signed number with \<open>sint\<close>). \<open>threads\<close> holds the slots of the handle
  array that have been written so far, in index order. The critical section and the
  condition variable carry no data of the program: the calls on them appear as events.
\<close>

record ThreadPool =
  running :: "8 word"
  threadNum :: "32 word"
  threads :: "HANDLE list"
  taskQueueHead :: "addr option"
  taskQueueTail :: "addr option"

record heap =
  pools :: "addr \<rightharpoonup> ThreadPool"
  tasks :: "addr \<rightharpoonup> Task"
  bufs :: "addr \<rightharpoonup> byte list"

text \<open>
  What a thread does besides changing the heap, in program order: the calls on the
  critical section and the condition variable, every read and write of the three shared
  fields of the pool, the call of a task function, the frees, and what is printed on
  stderr (the format string and its arguments).
\<close>

datatype field = Running | Head | Tail

datatype parg = PStr string | PInt int

datatype event =
    EnterCS
  | LeaveCS
  | SleepBegin
  | SleepEnd bool
  | WakeOne
  | WakeAll
  | WaitThreads
  | Spawn HANDLE
  | Rd field
  | Wr field
  | Call taskFunc "addr option"
  | FreeBuf "addr option"
  | FreeTask addr
  | FreePool addr
  | Stderr string "parg list"

text \<open>
  \<open>ExitFailure\<close> is \<open>exit(EXIT_FAILURE)\<close>. The other faults are undefined behaviour of
  the C program: a null pointer dereferenced, a pointer to memory that is not allocated
  used, \<open>memcpy\<close> reading past the end of its source.
\<close>

datatype fault = ExitFailure | NullDeref | BadPointer | OutOfBounds

type_synonym 'a res = "event list \<times> (fault + 'a)"

text \<open>Sequencing: the events of both parts in order; a fault ends the run.\<close>

definition seq :: "'a res \<Rightarrow> ('a \<Rightarrow> 'b res) \<Rightarrow> 'b res" where
  "seq m k =
     (case m of
        (es, Inl e) \<Rightarrow> (es, Inl e)
      | (es, Inr x) \<Rightarrow> (case k x of (es', r) \<Rightarrow> (es @ es', r)))"

text \<open>
  Ownership of the critical section by the thread whose events these are, after the
  events, given the ownership before them. \<open>SleepConditionVariableCS\<close> releases the
  critical section while the thread sleeps and owns it again when it returns.
\<close>

fun holding :: "bool \<Rightarrow> event list \<Rightarrow> bool" where
  "holding b [] = b"
| "holding b (EnterCS # es) = holding True es"
| "holding b (LeaveCS # es) = holding False es"
| "holding b (SleepBegin # es) = holding False es"
| "holding b (SleepEnd ok # es) = holding True es"
| "holding b (e # es) = holding b es"

text \<open>The reads and writes of shared fields made while the thread does not own the
  critical section.\<close>

fun unguarded :: "bool \<Rightarrow> event list \<Rightarrow> event list" where
  "unguarded b [] = []"
| "unguarded b (EnterCS # es) = unguarded True es"
| "unguarded b (LeaveCS # es) = unguarded False es"
| "unguarded b (SleepBegin # es) = unguarded False es"
| "unguarded b (SleepEnd ok # es) = unguarded True es"
| "unguarded b (Rd f # es) = (if b then unguarded b es else Rd f # unguarded b es)"
| "unguarded b (Wr f # es) = (if b then unguarded b es else Wr f # unguarded b es)"
| "unguarded b (e # es) = unguarded b es"

section \<open>Allocation and diagnostics\<close>

text \<open>
  \<open>underlying_safe_malloc\<close>: \<open>m\<close> is what \<open>malloc(len)\<close> returned (the allocator is
  outside the program, so its answer is an input).
\<close>

definition underlying_safe_malloc :: "addr option \<Rightarrow> string \<Rightarrow> int \<Rightarrow> addr res" where
  "underlying_safe_malloc m funcName lineNum =
     (case m of
        None \<Rightarrow>
          ([Stderr ''%s, line: %d: malloc() failed.\<newline>'' [PStr funcName, PInt lineNum]],
           Inl ExitFailure)
      | Some ptr \<Rightarrow> ([], Inr ptr))"

text \<open>
  \<open>print_last_system_error\<close>: \<open>fm\<close> is the message text \<open>FormatMessageA\<close> produced,
  \<open>None\<close> when it returned 0.
\<close>

definition print_last_system_error :: "string option \<Rightarrow> string \<Rightarrow> unit res" where
  "print_last_system_error fm userDefinedMsg =
     (case fm of
        Some lpMsgBuf \<Rightarrow> ([Stderr ''%s, %s'' [PStr userDefinedMsg, PStr lpMsgBuf]], Inr ())
      | None \<Rightarrow>
          ([Stderr ''%s, line: %d: FormatMessageA() failed.\<newline>''
              [PStr ''print_last_system_error'', PInt 66]],
           Inl ExitFailure))"

text \<open>
  \<open>free(p)\<close> on a byte buffer: nothing for the null pointer, a fault for a pointer to
  memory that is not allocated.
\<close>

definition free_buf :: "addr option \<Rightarrow> heap \<Rightarrow> heap res" where
  "free_buf a h =
     (case a of
        None \<Rightarrow> ([FreeBuf None], Inr h)
      | Some b \<Rightarrow>
          (case bufs h b of
             None \<Rightarrow> ([FreeBuf (Some b)], Inl BadPointer)
           | Some bs \<Rightarrow> ([FreeBuf (Some b)], Inr (h\<lparr>bufs := (bufs h)(b := None)\<rparr>))))"

section \<open>The worker loop\<close>

text \<open>
  \<open>thread_pool_work_loop\<close> runs until the pool stops, so it is a step function on the
  place the worker is at. The places are the statements of the loop body:
  line 79 (\<open>AtEnter\<close>), the test of the \<open>while\<close> at line 82 (\<open>AtWaitTest\<close>), the call at
  line 83 before (\<open>AtSleep\<close>) and inside (\<open>Asleep\<close>) the wait, the test at line 89
  (\<open>AtExitTest\<close>), line 95 (\<open>AtTake\<close>), line 96 (\<open>AtPop\<close>), line 99 (\<open>AtLeave\<close>),
  line 102 (\<open>AtCall\<close>), lines 105-106 (\<open>AtFree\<close>), and \<open>Exited\<close> after the \<open>return\<close>
  of line 91.
\<close>

datatype place =
  AtEnter | AtWaitTest | AtSleep | Asleep | AtExitTest | AtTake | AtPop | AtLeave | AtCall
  | AtFree | Exited

record worker =
  pc :: place
  headTask :: "addr option"

text \<open>What \<open>SleepConditionVariableCS\<close> returned: nonzero, or zero together with what
  \<open>FormatMessageA\<close> then produces for the report.\<close>

datatype wait_result = WaitOk | WaitFailed "string option"

text \<open>The condition of the \<open>while\<close> at line 82, with the reads it makes
  (\<open>&&\<close> reads \<open>running\<close> only when the head is null).\<close>

definition wait_test :: "ThreadPool \<Rightarrow> event list \<times> bool" where
  "wait_test P =
     (case taskQueueHead P of
        None \<Rightarrow> ([Rd Head, Rd Running], running P \<noteq> 0)
      | Some t \<Rightarrow> ([Rd Head], False))"

text \<open>The condition of the \<open>if\<close> at line 89.\<close>

definition exit_test :: "ThreadPool \<Rightarrow> event list \<times> bool" where
  "exit_test P =
     (case taskQueueHead P of
        None \<Rightarrow> ([Rd Head, Rd Running], running P = 0)
      | Some t \<Rightarrow> ([Rd Head], False))"

text \<open>Line 95: \<open>headTask = pool->taskQueueHead\<close>.\<close>

definition read_head :: "addr \<Rightarrow> heap \<Rightarrow> (addr option) res" where
  "read_head p h =
     (case pools h p of
        None \<Rightarrow> ([], Inl BadPointer)
      | Some P \<Rightarrow> ([Rd Head], Inr (taskQueueHead P)))"

text \<open>Line 96: \<open>pool->taskQueueHead = pool->taskQueueHead->next\<close>.\<close>

definition advance_head :: "addr \<Rightarrow> heap \<Rightarrow> heap res" where
  "advance_head p h =
     (case pools h p of
        None \<Rightarrow> ([], Inl BadPointer)
      | Some P \<Rightarrow>
          (case taskQueueHead P of
             None \<Rightarrow> ([Rd Head], Inl NullDeref)
           | Some t \<Rightarrow>
               (case tasks h t of
                  None \<Rightarrow> ([Rd Head], Inl BadPointer)
                | Some T \<Rightarrow>
                    ([Rd Head, Wr Head],
                     Inr (h\<lparr>pools := (pools h)(p \<mapsto> P\<lparr>taskQueueHead := nxt T\<rparr>)\<rparr>)))))"

text \<open>Lines 95-96 one after the other with nothing in between, as they run under the
  lock: the record taken and the heap.\<close>

definition pop_head :: "addr \<Rightarrow> heap \<Rightarrow> (addr \<times> heap) res" where
  "pop_head p h =
     seq (read_head p h)
       (\<lambda>ht. seq (advance_head p h)
          (\<lambda>h1. case ht of None \<Rightarrow> ([], Inl NullDeref) | Some t \<Rightarrow> ([], Inr (t, h1))))"

text \<open>Line 102: \<open>headTask->task(headTask->taskArgs)\<close>. What the task function does
  is its own business; the call is an event.\<close>

definition call_task :: "addr option \<Rightarrow> heap \<Rightarrow> heap res" where
  "call_task ht h =
     (case ht of
        None \<Rightarrow> ([], Inl NullDeref)
      | Some t \<Rightarrow>
          (case tasks h t of
             None \<Rightarrow> ([], Inl BadPointer)
           | Some T \<Rightarrow> ([Call (task T) (taskArgs T)], Inr h)))"

text \<open>Lines 105-106: \<open>free(headTask->taskArgs); free(headTask)\<close>.\<close>

definition free_task :: "addr option \<Rightarrow> heap \<Rightarrow> heap res" where
  "free_task ht h =
     (case ht of
        None \<Rightarrow> ([], Inl NullDeref)
      | Some t \<Rightarrow>
          (case tasks h t of
             None \<Rightarrow> ([], Inl BadPointer)
           | Some T \<Rightarrow>
               seq (free_buf (taskArgs T) h)
                 (\<lambda>h1. ([FreeTask t], Inr (h1\<lparr>tasks := (tasks h1)(t := None)\<rparr>)))))"

text \<open>One statement of the loop for the worker bound to the pool at \<open>p\<close>. The answer \<open>r\<close>
  of the wait is used only by the step that returns from it.\<close>

definition work_step :: "addr \<Rightarrow> wait_result \<Rightarrow> worker \<times> heap \<Rightarrow> (worker \<times> heap) res" where
  "work_step p r wh =
     (case wh of (w, h) \<Rightarrow>
        (case pc w of
           AtEnter \<Rightarrow> ([EnterCS], Inr (w\<lparr>pc := AtWaitTest\<rparr>, h))
         | AtWaitTest \<Rightarrow>
             (case pools h p of
                None \<Rightarrow> ([], Inl BadPointer)
              | Some P \<Rightarrow>
                  (case wait_test P of
                     (es, c) \<Rightarrow> (es, Inr (w\<lparr>pc := (if c then AtSleep else AtExitTest)\<rparr>, h))))
         | AtSleep \<Rightarrow> ([SleepBegin], Inr (w\<lparr>pc := Asleep\<rparr>, h))
         | Asleep \<Rightarrow>
             (case r of
                WaitOk \<Rightarrow> ([SleepEnd True], Inr (w\<lparr>pc := AtWaitTest\<rparr>, h))
              | WaitFailed fm \<Rightarrow>
                  seq ([SleepEnd False], Inr ())
                    (\<lambda>_. seq (print_last_system_error fm ''SleepConditionVariableCS() failed'')
                      (\<lambda>_. ([LeaveCS], Inr (w\<lparr>pc := AtWaitTest\<rparr>, h)))))
         | AtExitTest \<Rightarrow>
             (case pools h p of
                None \<Rightarrow> ([], Inl BadPointer)
              | Some P \<Rightarrow>
                  (case exit_test P of
                     (es, c) \<Rightarrow>
                       if c then (es @ [LeaveCS], Inr (w\<lparr>pc := Exited\<rparr>, h))
                       else (es, Inr (w\<lparr>pc := AtTake\<rparr>, h))))
         | AtTake \<Rightarrow>
             seq (read_head p h) (\<lambda>ht. ([], Inr (w\<lparr>pc := AtPop, headTask := ht\<rparr>, h)))
         | AtPop \<Rightarrow> seq (advance_head p h) (\<lambda>h1. ([], Inr (w\<lparr>pc := AtLeave\<rparr>, h1)))
         | AtLeave \<Rightarrow> ([LeaveCS], Inr (w\<lparr>pc := AtCall\<rparr>, h))
         | AtCall \<Rightarrow> seq (call_task (headTask w) h) (\<lambda>h1. ([], Inr (w\<lparr>pc := AtFree\<rparr>, h1)))
         | AtFree \<Rightarrow> seq (free_task (headTask w) h) (\<lambda>h1. ([], Inr (w\<lparr>pc := AtEnter\<rparr>, h1)))
         | Exited \<Rightarrow> ([], Inr (w, h))))"

section \<open>Creating a pool\<close>

text \<open>
  The loop of lines 127-141 from index \<open>i\<close> up to \<open>n\<close>: \<open>ct k\<close> is what the call of
  \<open>CreateThread\<close> for slot \<open>k\<close> returned (\<open>None\<close> is the null handle), \<open>fm\<close> what
  \<open>FormatMessageA\<close> produces for the report. The index stays between 0 and \<open>threadNum\<close>,
  so the \<open>int32_t\<close> counter never wraps and is a plain integer here.
\<close>

function spawn_loop ::
  "(nat \<Rightarrow> HANDLE option) \<Rightarrow> string option \<Rightarrow> addr \<Rightarrow> int \<Rightarrow> int \<Rightarrow> heap \<Rightarrow> heap res" where
  "spawn_loop ct fm pool i n h =
     (if i < n then
        (case ct (nat i) of
           None \<Rightarrow>
             seq (print_last_system_error fm ''CreateThread() failed'')
               (\<lambda>_. ([], Inl ExitFailure))
         | Some t \<Rightarrow>
             (case pools h pool of
                None \<Rightarrow> ([Spawn t], Inl BadPointer)
              | Some P \<Rightarrow>
                  (case spawn_loop ct fm pool (i + 1) n
                          (h\<lparr>pools := (pools h)(pool \<mapsto> P\<lparr>threads := threads P @ [t]\<rparr>)\<rparr>) of
                     (es, r) \<Rightarrow> (Spawn t # es, r))))
      else ([], Inr h))"
  by pat_completeness auto
termination
  by (relation "measure (\<lambda>(ct, fm, pool, i, n, h). nat (n - i))") auto

declare spawn_loop.simps [simp del]

text \<open>
  \<open>create_thread_pool\<close>: \<open>m1\<close> and \<open>m2\<close> are what the two calls of \<open>malloc\<close> returned
  (the pool structure, the handle array). The result is the pool pointer and the heap.
\<close>

definition create_thread_pool ::
  "32 word \<Rightarrow> addr option \<Rightarrow> addr option \<Rightarrow> (nat \<Rightarrow> HANDLE option) \<Rightarrow> string option \<Rightarrow> heap
     \<Rightarrow> (addr \<times> heap) res" where
  "create_thread_pool n m1 m2 ct fm h =
     seq (underlying_safe_malloc m1 ''create_thread_pool'' 116)
       (\<lambda>pool. seq ([Wr Running], Inr ())
         (\<lambda>_. seq (underlying_safe_malloc m2 ''create_thread_pool'' 120)
           (\<lambda>arr. seq ([Wr Head, Wr Tail], Inr ())
             (\<lambda>_. seq (spawn_loop ct fm pool 0 (sint n)
                         (h\<lparr>pools := (pools h)(pool \<mapsto>
                              \<lparr>running = 1, threadNum = n, threads = [],
                               taskQueueHead = None, taskQueueTail = None\<rparr>)\<rparr>))
               (\<lambda>h1. ([], Inr (pool, h1)))))))"

section \<open>Stopping a pool\<close>

text \<open>
  \<open>thread_pool_join_all\<close>, the statements of the calling thread. The test of line 151
  reads \<open>running\<close> before the critical section is entered. \<open>WaitThreads\<close> is the call of
  \<open>WaitForMultipleObjects\<close> at line 164; what the workers do until it returns is their
  own statements, which \<open>join_all_wait\<close> below runs.
\<close>

definition thread_pool_join_all :: "addr option \<Rightarrow> heap \<Rightarrow> heap res" where
  "thread_pool_join_all pool h =
     (case pool of
        None \<Rightarrow> ([], Inr h)
      | Some p \<Rightarrow>
          (case pools h p of
             None \<Rightarrow> ([], Inl BadPointer)
           | Some P \<Rightarrow>
               if running P = 0 then ([Rd Running], Inr h)
               else
                 ([Rd Running, EnterCS, Wr Running, LeaveCS, WakeAll, WaitThreads],
                  Inr (h\<lparr>pools := (pools h)(p \<mapsto> P\<lparr>running := 0\<rparr>)\<rparr>))))"

section \<open>Submitting a task\<close>

text \<open>
  Lines 197-203: the argument of the new record. \<open>m2\<close> is what \<open>malloc(argsSize)\<close>
  returned; \<open>memcpy\<close> reads \<open>argsSize\<close> bytes of the buffer at \<open>args\<close>
  (the parameter \<open>taskArgs\<close>).
\<close>

definition copy_args :: "addr option \<Rightarrow> nat \<Rightarrow> addr option \<Rightarrow> heap \<Rightarrow> (addr option \<times> heap) res" where
  "copy_args args argsSize m2 h =
     (case args of
        Some src \<Rightarrow>
          seq (underlying_safe_malloc m2 ''thread_pool_add_task'' 198)
            (\<lambda>dst. case bufs h src of
                      None \<Rightarrow> ([], Inl BadPointer)
                    | Some bs \<Rightarrow>
                        if argsSize \<le> length bs
                        then ([], Inr (Some dst, h\<lparr>bufs := (bufs h)(dst \<mapsto> take argsSize bs)\<rparr>))
                        else ([], Inl OutOfBounds))
      | None \<Rightarrow> ([], Inr (None, h)))"

text \<open>Lines 205-216: the record at \<open>temp\<close> is appended under the critical section.\<close>

definition enqueue :: "addr option \<Rightarrow> addr \<Rightarrow> heap \<Rightarrow> heap res" where
  "enqueue pool temp h =
     (case pool of
        None \<Rightarrow> ([EnterCS], Inl NullDeref)
      | Some p \<Rightarrow>
          (case pools h p of
             None \<Rightarrow> ([EnterCS], Inl BadPointer)
           | Some P \<Rightarrow>
               (case taskQueueHead P of
                  None \<Rightarrow>
                    ([EnterCS, Rd Head, Wr Tail, Wr Head, LeaveCS],
                     Inr (h\<lparr>pools := (pools h)(p \<mapsto>
                            P\<lparr>taskQueueTail := Some temp, taskQueueHead := Some temp\<rparr>)\<rparr>))
                | Some t0 \<Rightarrow>
                    (case taskQueueTail P of
                       None \<Rightarrow> ([EnterCS, Rd Head, Rd Tail], Inl NullDeref)
                     | Some t1 \<Rightarrow>
                         (case tasks h t1 of
                            None \<Rightarrow> ([EnterCS, Rd Head, Rd Tail], Inl BadPointer)
                          | Some T \<Rightarrow>
                              ([EnterCS, Rd Head, Rd Tail, Rd Tail, Wr Tail, LeaveCS],
                               Inr (h\<lparr>tasks := (tasks h)(t1 \<mapsto> T\<lparr>nxt := Some temp\<rparr>),
                                      pools := (pools h)(p \<mapsto>
                                        P\<lparr>taskQueueTail := nxt (T\<lparr>nxt := Some temp\<rparr>)\<rparr>)\<rparr>)))))))"

text \<open>
  \<open>thread_pool_add_task\<close>: \<open>m1\<close> is what \<open>malloc(sizeof(struct Task))\<close> returned.
\<close>

definition thread_pool_add_task ::
  "addr option \<Rightarrow> taskFunc \<Rightarrow> addr option \<Rightarrow> nat \<Rightarrow> addr option \<Rightarrow> addr option \<Rightarrow> heap \<Rightarrow> heap res" where
  "thread_pool_add_task pool f args argsSize m1 m2 h =
     seq (underlying_safe_malloc m1 ''thread_pool_add_task'' 191)
       (\<lambda>temp. seq (copy_args args argsSize m2 h)
         (\<lambda>(a, h1). seq (enqueue pool temp
                           (h1\<lparr>tasks := (tasks h1)(temp \<mapsto> \<lparr>task = f, taskArgs = a, nxt = None\<rparr>)\<rparr>))
           (\<lambda>h2. ([WakeOne], Inr h2))))"

section \<open>Runs of a worker, and of the workers of a pool\<close>

text \<open>A worker as \<open>CreateThread\<close> starts it.\<close>

definition new_worker :: worker where
  "new_worker = \<lparr>pc = AtEnter, headTask = None\<rparr>"

text \<open>The statements of a worker one after the other, none of them a failing wait.\<close>

fun work_steps :: "addr \<Rightarrow> nat \<Rightarrow> event list \<times> worker \<times> heap \<Rightarrow> (worker \<times> heap) res" where
  "work_steps p 0 (es, w, h) = (es, Inr (w, h))"
| "work_steps p (Suc k) (es, w, h) =
     (case work_step p WaitOk (w, h) of
        (es1, Inl e) \<Rightarrow> (es @ es1, Inl e)
      | (es1, Inr (w1, h1)) \<Rightarrow> work_steps p k (es @ es1, w1, h1))"

text \<open>
  One pass of a worker from line 79 through its critical section without a failing
  wait: six statements. It ends before the call of line 102 if there was a record,
  in the wait if the queue was empty and the pool running, and exited otherwise.
\<close>

definition work_section :: "addr \<Rightarrow> heap \<Rightarrow> (worker \<times> heap) res" where
  "work_section p h = work_steps p 6 ([], new_worker, h)"

text \<open>
  A run of one worker: \<open>Tick r\<close> is its next statement; \<open>OtherJoin\<close> and \<open>OtherSubmit\<close>
  are calls of \<open>thread_pool_join_all\<close> and \<open>thread_pool_add_task\<close> by another thread,
  \<open>OtherTake\<close> is another worker going from line 79 to line 99. All of those take the
  critical section, so they take effect only while this worker does not own it (asleep
  in the wait, or after it has left it); their events belong to the other thread and are
  not recorded.
\<close>

datatype input =
    Tick wait_result
  | OtherJoin
  | OtherSubmit taskFunc "addr option" nat "addr option" "addr option"
  | OtherTake

fun work_run :: "addr \<Rightarrow> input list \<Rightarrow> event list \<times> worker \<times> heap \<Rightarrow> (worker \<times> heap) res" where
  "work_run p [] (es, w, h) = (es, Inr (w, h))"
| "work_run p (Tick r # ins) (es, w, h) =
     (case work_step p r (w, h) of
        (es1, Inl e) \<Rightarrow> (es @ es1, Inl e)
      | (es1, Inr (w1, h1)) \<Rightarrow> work_run p ins (es @ es1, w1, h1))"
| "work_run p (OtherJoin # ins) (es, w, h) =
     (if holding False es then work_run p ins (es, w, h)
      else (case thread_pool_join_all (Some p) h of
              (es1, Inl e) \<Rightarrow> (es, Inl e)
            | (es1, Inr h1) \<Rightarrow> work_run p ins (es, w, h1)))"
| "work_run p (OtherSubmit f a n m1 m2 # ins) (es, w, h) =
     (if holding False es then work_run p ins (es, w, h)
      else (case thread_pool_add_task (Some p) f a n m1 m2 h of
              (es1, Inl e) \<Rightarrow> (es, Inl e)
            | (es1, Inr h1) \<Rightarrow> work_run p ins (es, w, h1)))"
| "work_run p (OtherTake # ins) (es, w, h) =
     (if holding False es then work_run p ins (es, w, h)
      else (case work_section p h of
              (es1, Inl e) \<Rightarrow> (es, Inl e)
            | (es1, Inr (w1, h1)) \<Rightarrow> work_run p ins (es, w, h1)))"

text \<open>
  The workers of a pool together, each with the events it has made so far and the place
  it is at. A worker owns the critical section when its own events say so.
\<close>

type_synonym team = "(event list \<times> worker) list"

definition any_holds :: "team \<Rightarrow> bool" where
  "any_holds tm = list_ex (\<lambda>x. holding False (fst x)) tm"

text \<open>Some worker other than the one at index \<open>i\<close> owns the critical section.\<close>

definition others_hold :: "nat \<Rightarrow> team \<Rightarrow> bool" where
  "others_hold i tm = any_holds (take i tm @ drop (Suc i) tm)"

definition all_exited :: "team \<Rightarrow> bool" where
  "all_exited tm = list_all (\<lambda>x. pc (snd x) = Exited) tm"

text \<open>
  What happens next in the pool: \<open>Work i r\<close> is the next statement of the worker at index
  \<open>i\<close> (\<open>r\<close> answers its wait, if it is in one), \<open>Add\<close> is a call of
  \<open>thread_pool_add_task\<close> by some other thread. \<open>EnterCriticalSection\<close> at line 79 and the
  return from \<open>SleepConditionVariableCS\<close> take the critical section, so a worker at one of
  these two places stays there while another worker owns it; so does the caller of
  \<open>thread_pool_add_task\<close>, whose call is taken as a whole. Every other statement of a
  worker runs whether or not the worker owns the critical section, as the code has it.
  The events of a worker are kept with the worker; those of the submitting thread are
  not recorded.
\<close>

datatype act =
    Work nat wait_result
  | Add taskFunc "addr option" nat "addr option" "addr option"

definition blocked :: "nat \<Rightarrow> team \<Rightarrow> bool" where
  "blocked i tm =
     ((pc (snd (tm ! i)) = AtEnter \<or> pc (snd (tm ! i)) = Asleep) \<and> others_hold i tm)"

fun team_step :: "addr \<Rightarrow> act \<Rightarrow> team \<times> heap \<Rightarrow> fault + team \<times> heap" where
  "team_step p (Work i r) (tm, h) =
     (if length tm \<le> i then Inr (tm, h)
      else if blocked i tm then Inr (tm, h)
      else (case work_step p r (snd (tm ! i), h) of
              (es, Inl e) \<Rightarrow> Inl e
            | (es, Inr (w1, h1)) \<Rightarrow> Inr (tm[i := (fst (tm ! i) @ es, w1)], h1)))"
| "team_step p (Add f a n m1 m2) (tm, h) =
     (if any_holds tm then Inr (tm, h)
      else (case thread_pool_add_task (Some p) f a n m1 m2 h of
              (es, Inl e) \<Rightarrow> Inl e
            | (es, Inr h1) \<Rightarrow> Inr (tm, h1)))"

fun team_run :: "addr \<Rightarrow> act list \<Rightarrow> team \<times> heap \<Rightarrow> fault + team \<times> heap" where
  "team_run p [] s = Inr s"
| "team_run p (a # as) s =
     (case team_step p a s of Inl e \<Rightarrow> Inl e | Inr s1 \<Rightarrow> team_run p as s1)"

fun is_work :: "act \<Rightarrow> bool" where
  "is_work (Work i r) = True"
| "is_work (Add f a n m1 m2) = False"

section \<open>Destroying a pool\<close>

text \<open>The pool at \<open>p\<close> exists and its \<open>running\<close> flag is set.\<close>

definition is_running :: "addr \<Rightarrow> heap \<Rightarrow> bool" where
  "is_running p h = (case pools h p of None \<Rightarrow> False | Some P \<Rightarrow> running P \<noteq> 0)"

text \<open>
  A thread that calls \<open>EnterCriticalSection\<close> while a worker owns the critical
  section goes on when no worker owns it: the acts of \<open>sch\<close> until then, and what is
  left of \<open>sch\<close>. The result is \<open>None\<close> when \<open>sch\<close> ends with the critical section
  still owned.
\<close>

fun enter_when_free ::
  "addr \<Rightarrow> act list \<Rightarrow> team \<times> heap \<Rightarrow> (fault + act list \<times> team \<times> heap) option" where
  "enter_when_free p [] (tm, h) = (if any_holds tm then None else Some (Inr ([], tm, h)))"
| "enter_when_free p (a # as) (tm, h) =
     (if any_holds tm then
        (case team_step p a (tm, h) of
           Inl e \<Rightarrow> Some (Inl e)
         | Inr s1 \<Rightarrow> enter_when_free p as s1)
      else Some (Inr (a # as, tm, h)))"

text \<open>
  \<open>thread_pool_join_all\<close> with its waits carried out, for a caller that is not one of
  the workers \<open>tm\<close> of the pool; \<open>sch\<close> is what the workers and the submitting threads
  do until the call returns. When the call gets past line 151 (the pool is there and
  running), it takes the critical section at line 156 once no worker owns it, stops the
  pool, and then waits at line 164 until every worker has returned from
  \<open>thread_pool_work_loop\<close>. No worker writes \<open>running\<close>, so what line 151 read still
  holds at line 156. A fault of a worker ends the program. The result is \<open>None\<close> when
  the call does not return: \<open>sch\<close> ends with the critical section still owned by a
  worker, or with some worker still in its loop.
\<close>

definition join_all_wait ::
  "addr option \<Rightarrow> act list \<Rightarrow> team \<times> heap \<Rightarrow> (team \<times> heap) res option" where
  "join_all_wait pool sch th =
     (case th of (tm, h) \<Rightarrow>
        (case pool of
           None \<Rightarrow>
             (case thread_pool_join_all None h of
                (es, Inl e) \<Rightarrow> Some (es, Inl e)
              | (es, Inr h1) \<Rightarrow> Some (es, Inr (tm, h1)))
         | Some p \<Rightarrow>
             if is_running p h then
               (case enter_when_free p sch (tm, h) of
                  None \<Rightarrow> None
                | Some (Inl e) \<Rightarrow> Some ([Rd Running], Inl e)
                | Some (Inr (sch1, tm1, h1)) \<Rightarrow>
                    (case thread_pool_join_all (Some p) h1 of
                       (es, Inl e) \<Rightarrow> Some (es, Inl e)
                     | (es, Inr h2) \<Rightarrow>
                         (case team_run p sch1 (tm1, h2) of
                            Inl e \<Rightarrow> Some (es, Inl e)
                          | Inr (tm3, h3) \<Rightarrow>
                              if all_exited tm3 then Some (es, Inr (tm3, h3)) else None)))
             else
               (case thread_pool_join_all (Some p) h of
                  (es, Inl e) \<Rightarrow> Some (es, Inl e)
                | (es, Inr h1) \<Rightarrow> Some (es, Inr (tm, h1)))))"

text \<open>
  The loop of lines 175-181, with the events so far as an accumulator. It ends at a
  null head or at a fault; the result is \<open>None\<close> if it does neither.
\<close>

partial_function (option) drain_queue :: "addr option \<Rightarrow> event list \<times> heap \<Rightarrow> heap res option" where
  "drain_queue pool eh =
     (case eh of (es, h) \<Rightarrow>
        (case pool of
           None \<Rightarrow> Some (es, Inl NullDeref)
         | Some p \<Rightarrow>
             (case pools h p of
                None \<Rightarrow> Some (es, Inl BadPointer)
              | Some P \<Rightarrow>
                  (case taskQueueHead P of
                     None \<Rightarrow> Some (es @ [Rd Head], Inr h)
                   | Some t \<Rightarrow>
                       (case tasks h t of
                          None \<Rightarrow> Some (es @ [Rd Head, Rd Head], Inl BadPointer)
                        | Some T \<Rightarrow>
                            (case free_buf (taskArgs T) h of
                               (es1, Inl e) \<Rightarrow> Some (es @ [Rd Head, Rd Head, Rd Head] @ es1, Inl e)
                             | (es1, Inr h1) \<Rightarrow>
                                 drain_queue pool
                                   (es @ [Rd Head, Rd Head, Rd Head] @ es1 @ [Rd Head, FreeTask t, Wr Head],
                                    h1\<lparr>tasks := (tasks h1)(t := None),
                                       pools := (pools h1)(p \<mapsto> P\<lparr>taskQueueHead := nxt T\<rparr>)\<rparr>)))))))"

text \<open>\<open>thread_pool_destroy\<close>: the join with its wait, the loop, \<open>free(pool)\<close>.\<close>

definition thread_pool_destroy ::
  "addr option \<Rightarrow> act list \<Rightarrow> team \<times> heap \<Rightarrow> (team \<times> heap) res option" where
  "thread_pool_destroy pool sch th =
     (case join_all_wait pool sch th of
        None \<Rightarrow> None
      | Some (es, Inl e) \<Rightarrow> Some (es, Inl e)
      | Some (es, Inr (tm1, h1)) \<Rightarrow>
          (case drain_queue pool (es, h1) of
             None \<Rightarrow> None
           | Some (es2, Inl e) \<Rightarrow> Some (es2, Inl e)
           | Some (es2, Inr h2) \<Rightarrow>
               (case pool of
                  None \<Rightarrow> Some (es2, Inl NullDeref)
                | Some p \<Rightarrow>
                    Some (es2 @ [FreePool p], Inr (tm1, h2\<lparr>pools := (pools h2)(p := None)\<rparr>)))))"

text \<open>One operation on the pool at \<open>p\<close>, by any thread, seen as a change of the heap.\<close>

inductive pool_trans :: "addr \<Rightarrow> heap \<Rightarrow> heap \<Rightarrow> bool" for p :: addr where
  trans_add: "thread_pool_add_task (Some p) f a n m1 m2 h = (es, Inr h') \<Longrightarrow> pool_trans p h h'"
| trans_join: "thread_pool_join_all (Some p) h = (es, Inr h') \<Longrightarrow> pool_trans p h h'"
| trans_work: "work_step p r (w, h) = (es, Inr (w', h')) \<Longrightarrow> pool_trans p h h'"
| trans_destroy:
    "thread_pool_destroy (Some p) sch (tm, h) = Some (es, Inr (tm', h')) \<Longrightarrow> pool_trans p h h'"

section \<open>The queue as a list of records\<close>

text \<open>
  A record of the queue, as the theorems tell it apart: its address, its function and
  its argument pointer. \<open>chain ts x rs\<close>: the records reached from the pointer \<open>x\<close>
  through \<open>next\<close> are \<open>rs\<close>, in this order, and the last \<open>next\<close> is null.
\<close>

type_synonym entry = "addr \<times> taskFunc \<times> addr option"

fun chain :: "(addr \<rightharpoonup> Task) \<Rightarrow> addr option \<Rightarrow> entry list \<Rightarrow> bool" where
  "chain ts x [] = (x = None)"
| "chain ts x ((a, f, g) # rs) =
     (x = Some a \<and>
      (case ts a of
         None \<Rightarrow> False
       | Some T \<Rightarrow> task T = f \<and> taskArgs T = g \<and> chain ts (nxt T) rs))"

text \<open>
  The queue of the pool at \<open>p\<close> holds the records \<open>rs\<close>: they are the chain from the
  head, and the tail points at the last of them if there is one.
\<close>

definition queue_at :: "addr \<Rightarrow> heap \<Rightarrow> entry list \<Rightarrow> bool" where
  "queue_at p h rs =
     (case pools h p of
        None \<Rightarrow> False
      | Some P \<Rightarrow>
          chain (tasks h) (taskQueueHead P) rs \<and>
          (rs \<noteq> [] \<longrightarrow> taskQueueTail P = Some (fst (last rs))))"

text \<open>The pool at \<open>p\<close> is there, and its tail is null only if its head is null.\<close>

definition queue_ok :: "addr \<Rightarrow> heap \<Rightarrow> bool" where
  "queue_ok p h =
     (case pools h p of
        None \<Rightarrow> False
      | Some P \<Rightarrow> taskQueueTail P = None \<longrightarrow> taskQueueHead P = None)"



section \<open>Example states\<close>

text \<open>A heap with nothing allocated.\<close>

definition empty_heap :: heap where
  "empty_heap = \<lparr>pools = Map.empty, tasks = Map.empty, bufs = Map.empty\<rparr>"

text \<open>A running pool at address 1 with four workers and an empty queue.\<close>

definition idle_heap :: heap where
  "idle_heap =
     \<lparr>pools = [1 \<mapsto> \<lparr>running = 1, threadNum = 4, threads = [10, 11, 12, 13],
                       taskQueueHead = None, taskQueueTail = None\<rparr>],
      tasks = Map.empty, bufs = Map.empty\<rparr>"

text \<open>A pool at address 1 that has been stopped, with four workers and an empty queue.\<close>

definition stopped_heap :: heap where
  "stopped_heap =
     \<lparr>pools = [1 \<mapsto> \<lparr>running = 0, threadNum = 4, threads = [10, 11, 12, 13],
                       taskQueueHead = None, taskQueueTail = None\<rparr>],
      tasks = Map.empty, bufs = Map.empty\<rparr>"

text \<open>The pool at address 1 after one task (function 7, no argument, record at
  address 5) has been submitted, and after a worker has taken that record.\<close>

definition one_task_heap :: heap where
  "one_task_heap =
     \<lparr>pools = [1 \<mapsto> \<lparr>running = 1, threadNum = 4, threads = [10, 11, 12, 13],
                       taskQueueHead = Some 5, taskQueueTail = Some 5\<rparr>],
      tasks = [5 \<mapsto> \<lparr>task = 7, taskArgs = None, nxt = None\<rparr>], bufs = Map.empty\<rparr>"

definition taken_heap :: heap where
  "taken_heap =
     \<lparr>pools = [1 \<mapsto> \<lparr>running = 1, threadNum = 4, threads = [10, 11, 12, 13],
                       taskQueueHead = None, taskQueueTail = Some 5\<rparr>],
      tasks = [5 \<mapsto> \<lparr>task = 7, taskArgs = None, nxt = None\<rparr>], bufs = Map.empty\<rparr>"

text \<open>The running pool at address 1, and a caller's buffer at address 20 that holds the
  four bytes of the integer 39.\<close>

definition caller_heap :: heap where
  "caller_heap =
     \<lparr>pools = [1 \<mapsto> \<lparr>running = 1, threadNum = 4, threads = [10, 11, 12, 13],
                       taskQueueHead = None, taskQueueTail = None\<rparr>],
      tasks = Map.empty, bufs = [20 \<mapsto> [39, 0, 0, 0]]\<rparr>"

text \<open>The stopped pool at address 1 after a task has been submitted to it all the same.\<close>

definition late_heap :: heap where
  "late_heap =
     \<lparr>pools = [1 \<mapsto> \<lparr>running = 0, threadNum = 4, threads = [10, 11, 12, 13],
                       taskQueueHead = Some 5, taskQueueTail = Some 5\<rparr>],
      tasks = [5 \<mapsto> \<lparr>task = 7, taskArgs = None, nxt = None\<rparr>], bufs = Map.empty\<rparr>"



text \<open>The four workers of the pool at address 1 as \<open>CreateThread\<close> starts them.\<close>

definition fresh_team :: team where
  "fresh_team = [([], new_worker), ([], new_worker), ([], new_worker), ([], new_worker)]"

text \<open>The running pool at address 1 after two tasks have been submitted (function 7 in
  the record at address 5, then function 8 in the record at address 6), and the same
  pool with the head null and both records still allocated.\<close>

definition two_task_heap :: heap where
  "two_task_heap =
     \<lparr>pools = [1 \<mapsto> \<lparr>running = 1, threadNum = 4, threads = [10, 11, 12, 13],
                       taskQueueHead = Some 5, taskQueueTail = Some 6\<rparr>],
      tasks = [5 \<mapsto> \<lparr>task = 7, taskArgs = None, nxt = Some 6\<rparr>,
               6 \<mapsto> \<lparr>task = 8, taskArgs = None, nxt = None\<rparr>],
      bufs = Map.empty\<rparr>"

definition lost_heap :: heap where
  "lost_heap =
     \<lparr>pools = [1 \<mapsto> \<lparr>running = 1, threadNum = 4, threads = [10, 11, 12, 13],
                       taskQueueHead = None, taskQueueTail = Some 6\<rparr>],
      tasks = [5 \<mapsto> \<lparr>task = 7, taskArgs = None, nxt = Some 6\<rparr>,
               6 \<mapsto> \<lparr>task = 8, taskArgs = None, nxt = None\<rparr>],
      bufs = Map.empty\<rparr>"

text \<open>
  A run of the pool at address 1, in three parts. Worker 0 enters the critical section,
  finds the queue empty and sleeps; two tasks are submitted. Then the wait of worker 0
  returns 0: worker 0 goes through the tests of lines 82 and 89 and line 95; worker 1
  goes from line 79 through line 95; worker 0 runs line 96, worker 1 runs line 96.
  Then worker 1 and worker 0 each run lines 99 and 102.
\<close>

definition race_submit :: "act list" where
  "race_submit =
     [Work 0 WaitOk, Work 0 WaitOk, Work 0 WaitOk,
      Add 7 None 0 (Some 5) None, Add 8 None 0 (Some 6) None]"

definition race_take :: "act list" where
  "race_take =
     [Work 0 (WaitFailed (Some ''timeout'')), Work 0 WaitOk, Work 0 WaitOk, Work 0 WaitOk,
      Work 1 WaitOk, Work 1 WaitOk, Work 1 WaitOk, Work 1 WaitOk,
      Work 0 WaitOk, Work 1 WaitOk]"

definition race_call :: "act list" where
  "race_call = [Work 1 WaitOk, Work 1 WaitOk, Work 0 WaitOk, Work 0 WaitOk]"





section \<open>Sequencing\<close>

lemma seq_simps:
  "seq (es, Inl e) k = (es, Inl e)"
  "seq (es, Inr x) k = (es @ fst (k x), snd (k x))"
  by (simp_all add: seq_def split: prod.splits)

section \<open>Null handles\<close>

text \<open>
  C10. \<open>thread_pool_join_all\<close> on the null pointer returns at once, with no event and the
  heap as it was. \<open>thread_pool_destroy\<close> on the null pointer gets through that join and
  then dereferences the null pointer in the test of its loop (line 175): only the join
  accepts a null pool.
\<close>

theorem join_null_destroy_null:
  "thread_pool_join_all None h = ([], Inr h) \<and>
   thread_pool_destroy None sch (tm, h) = Some ([], Inl NullDeref)"
  by (simp add: thread_pool_join_all_def thread_pool_destroy_def join_all_wait_def
        drain_queue.simps)

section \<open>Joining twice\<close>

text \<open>
  C7. When the pool pointer is null, or the pool's \<open>running\<close> is already 0,
  \<open>thread_pool_join_all\<close> returns the heap unchanged, and does nothing but (for a pool
  that is there) read \<open>running\<close>: it takes no lock, wakes nobody and waits for nobody.
  So a second call right after a first one changes nothing: the heap after two calls
  is the heap after one.
\<close>

theorem join_all_idempotent:
  "((pool = None \<or> (\<exists>p P. pool = Some p \<and> pools h p = Some P \<and> running P = 0)) \<longrightarrow>
      snd (thread_pool_join_all pool h) = Inr h \<and>
      set (fst (thread_pool_join_all pool h)) \<subseteq> {Rd Running}) \<and>
   snd (seq (thread_pool_join_all pool h) (thread_pool_join_all pool)) =
     snd (thread_pool_join_all pool h)"
  by (auto simp: thread_pool_join_all_def seq_def split: option.splits prod.splits sum.splits)

theorem join_all_idempotent_witness:
  "(\<exists>p P. Some (1::nat) = Some p \<and> pools stopped_heap p = Some P \<and> running P = 0) \<and>
   snd (thread_pool_join_all (Some 1) stopped_heap) = Inr stopped_heap \<and>
   set (fst (thread_pool_join_all (Some 1) stopped_heap)) \<subseteq> {Rd Running}"
  using join_all_idempotent [of "Some 1" stopped_heap]
  by (simp add: stopped_heap_def)

section \<open>What the operations do to the fields of the pool\<close>

lemmas run_defs =
  work_step_def wait_test_def exit_test_def seq_simps print_last_system_error_def
  new_worker_def thread_pool_join_all_def read_head_def advance_head_def pop_head_def
  work_section_def
  thread_pool_add_task_def enqueue_def copy_args_def underlying_safe_malloc_def

lemmas team_defs = any_holds_def others_hold_def blocked_def call_task_def free_task_def free_buf_def

lemma spawn_loop_pool:
  "spawn_loop ct fm p i n h = (es, Inr h') \<Longrightarrow> pools h p = Some P \<Longrightarrow>
   \<exists>ts. h' = h\<lparr>pools := (pools h)(p \<mapsto> P\<lparr>threads := threads P @ ts\<rparr>)\<rparr>"
proof (induction ct fm p i n h arbitrary: es h' P rule: spawn_loop.induct)
  case (1 ct fm pool i n h)
  show ?case
  proof (cases "i < n")
    case False
    with "1.prems" have "h' = h" by (simp add: spawn_loop.simps [of ct fm pool i n h])
    then have "h' = h\<lparr>pools := (pools h)(pool \<mapsto> P\<lparr>threads := threads P @ []\<rparr>)\<rparr>"
      using "1.prems"(2) by (simp add: fun_upd_idem)
    then show ?thesis by blast
  next
    case True
    from "1.prems"(1) True obtain t where t: "ct (nat i) = Some t"
      by (cases "ct (nat i)")
         (auto simp: spawn_loop.simps [of ct fm pool i n h] seq_def print_last_system_error_def
               split: option.splits)
    let ?h1 = "h\<lparr>pools := (pools h)(pool \<mapsto> P\<lparr>threads := threads P @ [t]\<rparr>)\<rparr>"
    from "1.prems" True t obtain es1 where
      r: "spawn_loop ct fm pool (i + 1) n ?h1 = (es1, Inr h')"
      by (auto simp: spawn_loop.simps [of ct fm pool i n h] split: prod.splits)
    have "pools ?h1 pool = Some (P\<lparr>threads := threads P @ [t]\<rparr>)" by simp
    from "1.IH" [OF True t "1.prems"(2) r this]
    obtain ts where "h' = ?h1\<lparr>pools := (pools ?h1)(pool \<mapsto>
        (P\<lparr>threads := threads P @ [t]\<rparr>)\<lparr>threads := threads (P\<lparr>threads := threads P @ [t]\<rparr>) @ ts\<rparr>)\<rparr>"
      by blast
    then have "h' = h\<lparr>pools := (pools h)(pool \<mapsto> P\<lparr>threads := threads P @ ([t] @ ts)\<rparr>)\<rparr>"
      by simp
    then show ?thesis by blast
  qed
qed

lemma drain_queue_pool_aux:
  "drain_queue pool eh = Some r \<Longrightarrow>
   \<forall>p P es' h'. pool = Some p \<and> pools (snd eh) p = Some P \<and> r = (es', Inr h') \<longrightarrow>
      pools h' p = Some (P\<lparr>taskQueueHead := None\<rparr>)"
proof (induction pool eh r rule: drain_queue.raw_induct [rotated 1, consumes 1, case_names step])
  case (step drain pool eh r)
  obtain es h where eh: "eh = (es, h)" by (cases eh)
  show ?case
  proof (intro allI impI, elim conjE)
    fix p P es' h'
    assume p: "pool = Some p" and P: "pools (snd eh) p = Some P" and r: "r = (es', Inr h')"
    show "pools h' p = Some (P\<lparr>taskQueueHead := None\<rparr>)"
    proof (cases "taskQueueHead P")
      case None
      with step.hyps eh p P r show ?thesis by (simp add: fun_upd_idem)
    next
      case (Some t)
      from step.hyps eh p P r Some obtain T where T: "tasks h t = Some T"
        by (cases "tasks h t") auto
      from step.hyps eh p P r Some T obtain es1 h1 where
        f: "free_buf (taskArgs T) h = (es1, Inr h1)"
        by (cases "free_buf (taskArgs T) h") (auto split: sum.splits)
      then have h1p: "pools h1 = pools h"
        by (auto simp: free_buf_def split: option.splits)
      let ?h2 = "h1\<lparr>tasks := (tasks h1)(t := None),
                    pools := (pools h1)(p \<mapsto> P\<lparr>taskQueueHead := nxt T\<rparr>)\<rparr>"
      from step.hyps eh p P r Some T f have
        "drain pool (es @ [Rd Head, Rd Head, Rd Head] @ es1 @ [Rd Head, FreeTask t, Wr Head], ?h2)
           = Some r" by simp
      from step.IH [OF this] p r
      have "pools h' p = Some ((P\<lparr>taskQueueHead := nxt T\<rparr>)\<lparr>taskQueueHead := None\<rparr>)"
        by simp
      then show ?thesis by simp
    qed
  qed
qed

lemma drain_queue_pool:
  "drain_queue (Some p) (es, h) = Some (es', Inr h') \<Longrightarrow> pools h p = Some P \<Longrightarrow>
   pools h' p = Some (P\<lparr>taskQueueHead := None\<rparr>)"
  using drain_queue_pool_aux [of "Some p" "(es, h)" "(es', Inr h')"] by simp

lemma work_step_pool:
  "work_step p r (w, h) = (es, Inr (w', h')) \<Longrightarrow> pools h p = Some P \<Longrightarrow>
   pools h' p = Some P \<or>
   (\<exists>t T. taskQueueHead P = Some t \<and> tasks h t = Some T \<and>
          pools h' p = Some (P\<lparr>taskQueueHead := nxt T\<rparr>))"
  by (cases "pc w")
     (auto simp: work_step_def seq_def read_head_def advance_head_def call_task_def free_task_def free_buf_def
           wait_test_def exit_test_def print_last_system_error_def
           split: option.splits prod.splits sum.splits wait_result.splits if_splits)

lemma add_task_pool:
  "thread_pool_add_task (Some p) f a n m1 m2 h = (es, Inr h') \<Longrightarrow> pools h p = Some P \<Longrightarrow>
   \<exists>P'. pools h' p = Some P' \<and> taskQueueHead P' \<noteq> None \<and> taskQueueTail P' \<noteq> None \<and>
        running P' = running P \<and> threadNum P' = threadNum P \<and> threads P' = threads P"
  by (auto simp: thread_pool_add_task_def seq_def enqueue_def copy_args_def
           underlying_safe_malloc_def
           split: option.splits prod.splits sum.splits if_splits)

lemma create_pool:
  assumes "create_thread_pool n m1 m2 ct fm h = (es, Inr (p, h'))"
  shows "\<exists>ts. pools h' p = Some \<lparr>running = 1, threadNum = n, threads = ts,
                                  taskQueueHead = None, taskQueueTail = None\<rparr>"
proof -
  let ?P = "\<lparr>running = 1, threadNum = n, threads = [],
             taskQueueHead = None, taskQueueTail = None\<rparr>"
  let ?h0 = "h\<lparr>pools := (pools h)(p \<mapsto> ?P)\<rparr>"
  from assms have m1: "m1 = Some p"
    by (cases m1) (auto simp: create_thread_pool_def seq_def underlying_safe_malloc_def
                        split: option.splits prod.splits sum.splits)
  from assms m1 obtain es1 where "spawn_loop ct fm p 0 (sint n) ?h0 = (es1, Inr h')"
    by (cases m2; cases "spawn_loop ct fm p 0 (sint n) ?h0")
       (auto simp: create_thread_pool_def seq_def underlying_safe_malloc_def
             split: sum.splits)
  from spawn_loop_pool [OF this, of ?P] show ?thesis by auto
qed

section \<open>Head and tail of the queue\<close>

text \<open>
  C2 says that the head is null if and only if the tail is null, in the created pool and
  after every operation on the queue. The dequeue breaks it. In the running pool at
  address 1 with an empty queue, head and tail are both null; \<open>thread_pool_add_task\<close>
  with a record at address 5 sets both to that record; the dequeue of lines 95-96 then
  sets the head to the record's \<open>next\<close>, which is null, and does not touch the tail:
  the head is null and the tail is not.
\<close>

theorem queue_iff_counterexample:
  "snd (thread_pool_add_task (Some 1) 7 None 0 (Some 5) None idle_heap) = Inr one_task_heap \<and>
   snd (pop_head 1 one_task_heap) = Inr (5, taken_heap) \<and>
   map_option taskQueueHead (pools taken_heap 1) = Some None \<and>
   map_option taskQueueTail (pools taken_heap 1) = Some (Some 5)"
  by (simp add: run_defs idle_heap_def one_task_heap_def taken_heap_def)

text \<open>
  C2, amended. One direction holds: the tail is null only if the head is null (a
  non-empty queue always has a tail). A created pool has both null; the enqueue of
  \<open>thread_pool_add_task\<close>, every statement of the worker loop (the dequeue among them)
  and the loop of \<open>thread_pool_destroy\<close> keep it.
\<close>

theorem queue_ok_preserved:
  "(create_thread_pool n m1 m2 ct fm g = (es0, Inr (q, g')) \<longrightarrow>
      queue_ok q g' \<and>
      map_option taskQueueHead (pools g' q) = Some None \<and>
      map_option taskQueueTail (pools g' q) = Some None) \<and>
   (queue_ok p h \<longrightarrow>
      (thread_pool_add_task (Some p) f a k m3 m4 h = (es1, Inr h1) \<longrightarrow> queue_ok p h1) \<and>
      (work_step p r (w, h) = (es2, Inr (w', h2)) \<longrightarrow> queue_ok p h2) \<and>
      (drain_queue (Some p) (es, h) = Some (es3, Inr h3) \<longrightarrow> queue_ok p h3))"
proof (intro conjI impI)
  assume "create_thread_pool n m1 m2 ct fm g = (es0, Inr (q, g'))"
  from create_pool [OF this]
  show "queue_ok q g'" and "map_option taskQueueHead (pools g' q) = Some None"
    and "map_option taskQueueTail (pools g' q) = Some None"
    by (auto simp: queue_ok_def)
next
  assume "queue_ok p h"
  then obtain P where P: "pools h p = Some P" by (auto simp: queue_ok_def split: option.splits)
  assume "thread_pool_add_task (Some p) f a k m3 m4 h = (es1, Inr h1)"
  from add_task_pool [OF this P] show "queue_ok p h1"
    by (auto simp: queue_ok_def)
next
  assume "queue_ok p h"
  then obtain P where P: "pools h p = Some P" "taskQueueTail P = None \<longrightarrow> taskQueueHead P = None"
    by (auto simp: queue_ok_def split: option.splits)
  assume "work_step p r (w, h) = (es2, Inr (w', h2))"
  from work_step_pool [OF this P(1)] P(2) show "queue_ok p h2"
    by (auto simp: queue_ok_def)
next
  assume "queue_ok p h"
  then obtain P where P: "pools h p = Some P" "taskQueueTail P = None \<longrightarrow> taskQueueHead P = None"
    by (auto simp: queue_ok_def split: option.splits)
  assume "drain_queue (Some p) (es, h) = Some (es3, Inr h3)"
  from drain_queue_pool [OF this P(1)] P(2) show "queue_ok p h3"
    by (simp add: queue_ok_def)
qed

theorem queue_ok_preserved_witness:
  "create_thread_pool 4 (Some 1) (Some 2) (\<lambda>k. Some (10 + k)) None empty_heap =
     ([Wr Running, Wr Head, Wr Tail, Spawn 10, Spawn 11, Spawn 12, Spawn 13], Inr (1, idle_heap)) \<and>
   queue_ok 1 idle_heap \<and>
   thread_pool_add_task (Some 1) 7 None 0 (Some 5) None idle_heap =
     ([EnterCS, Rd Head, Wr Tail, Wr Head, LeaveCS, WakeOne], Inr one_task_heap) \<and>
   queue_ok 1 one_task_heap \<and>
   work_step 1 WaitOk (\<lparr>pc = AtPop, headTask = Some 5\<rparr>, one_task_heap) =
     ([Rd Head, Wr Head], Inr (\<lparr>pc = AtLeave, headTask = Some 5\<rparr>, taken_heap)) \<and>
   queue_ok 1 taken_heap \<and>
   drain_queue (Some 1) ([], taken_heap) = Some ([Rd Head], Inr taken_heap)"
proof -
  have c: "create_thread_pool 4 (Some 1) (Some 2) (\<lambda>k. Some (10 + k)) None empty_heap =
     ([Wr Running, Wr Head, Wr Tail, Spawn 10, Spawn 11, Spawn 12, Spawn 13], Inr (1, idle_heap))"
    by (simp add: create_thread_pool_def run_defs spawn_loop.simps empty_heap_def idle_heap_def)
  have a: "thread_pool_add_task (Some 1) 7 None 0 (Some 5) None idle_heap =
     ([EnterCS, Rd Head, Wr Tail, Wr Head, LeaveCS, WakeOne], Inr one_task_heap)"
    by (simp add: run_defs idle_heap_def one_task_heap_def)
  have w: "work_step 1 WaitOk (\<lparr>pc = AtPop, headTask = Some 5\<rparr>, one_task_heap) =
     ([Rd Head, Wr Head], Inr (\<lparr>pc = AtLeave, headTask = Some 5\<rparr>, taken_heap))"
    by (simp add: run_defs one_task_heap_def taken_heap_def)
  have d: "drain_queue (Some 1) ([], taken_heap) = Some ([Rd Head], Inr taken_heap)"
    by (simp add: drain_queue.simps taken_heap_def)
  have 1: "queue_ok 1 idle_heap"
    using queue_ok_preserved [THEN conjunct1, THEN mp, OF c] by simp
  note step = queue_ok_preserved [THEN conjunct2, THEN mp]
  have 2: "queue_ok 1 one_task_heap"
    by (rule step [OF 1, THEN conjunct1, THEN mp, OF a])
  have 3: "queue_ok 1 taken_heap"
    by (rule step [OF 2, THEN conjunct2, THEN conjunct1, THEN mp, OF w])
  have 4: "queue_ok 1 taken_heap"
    by (rule step [OF 3, THEN conjunct2, THEN conjunct2, THEN mp, OF d])
  from c a w d 1 2 4 show ?thesis by simp
qed

section \<open>The lock in the worker loop\<close>

text \<open>
  C3 says that every read and write of \<open>running\<close>, of the head and of the tail in the
  worker loop is made while the worker owns the lock, on the path after a failed wait
  too, and that a worker that reports a failure does not keep the lock. The code does
  the second and not the first, as this run shows. A worker of the running pool at
  address 1 finds the queue empty and sleeps; \<open>SleepConditionVariableCS\<close> returns 0.
  The worker reports the failure and leaves the critical section (lines 84-85): whether
  or not the failed wait gave the critical section back, the worker does not own it
  after line 85. It then goes back to the test of line 82 without entering the critical
  section again, and reads the head and \<open>running\<close> while it does not own the lock.
\<close>

theorem worker_reads_unlocked_after_failed_wait:
  "work_run 1
     [Tick WaitOk, Tick WaitOk, Tick WaitOk, Tick (WaitFailed (Some ''timeout'')), Tick WaitOk]
     ([], new_worker, idle_heap) =
   ([EnterCS, Rd Head, Rd Running, SleepBegin, SleepEnd False,
     Stderr ''%s, %s'' [PStr ''SleepConditionVariableCS() failed'', PStr ''timeout''], LeaveCS,
     Rd Head, Rd Running],
    Inr (\<lparr>pc = AtSleep, headTask = None\<rparr>, idle_heap)) \<and>
   holding False
     [EnterCS, Rd Head, Rd Running, SleepBegin, SleepEnd False,
      Stderr ''%s, %s'' [PStr ''SleepConditionVariableCS() failed'', PStr ''timeout''], LeaveCS]
     = False \<and>
   unguarded False
     [EnterCS, Rd Head, Rd Running, SleepBegin, SleepEnd False,
      Stderr ''%s, %s'' [PStr ''SleepConditionVariableCS() failed'', PStr ''timeout''], LeaveCS,
      Rd Head, Rd Running]
     = [Rd Head, Rd Running]"
  by (simp add: run_defs idle_heap_def)

text \<open>
  C4 says that a worker exits exactly when it finds, under the lock, the queue empty and
  \<open>running\<close> false, and that a worker that gets past the wait otherwise finds the
  queue non-empty and takes its head record. After a failed wait the code does neither,
  by the defect shown for C3, as these two runs show. In the first, another thread calls
  \<open>thread_pool_join_all\<close> while the worker sleeps, and the wait returns 0: the worker
  leaves the critical section, finds the queue empty and \<open>running\<close> 0 in the tests of
  lines 82 and 89 and exits, all four reads made without the lock. In the second, a task
  is submitted while the worker sleeps, and the wait returns 0: the worker gets past the
  test of line 82 without the lock, another worker takes the record, and this worker
  goes on past line 89 (the pool is running) to the dequeue with the queue empty, where
  it dereferences the null head.
\<close>

theorem worker_exits_unlocked_after_failed_wait:
  "work_run 1
     [Tick WaitOk, Tick WaitOk, Tick WaitOk, OtherJoin, Tick (WaitFailed (Some ''timeout'')),
      Tick WaitOk, Tick WaitOk]
     ([], new_worker, idle_heap) =
   ([EnterCS, Rd Head, Rd Running, SleepBegin, SleepEnd False,
     Stderr ''%s, %s'' [PStr ''SleepConditionVariableCS() failed'', PStr ''timeout''], LeaveCS,
     Rd Head, Rd Running, Rd Head, Rd Running, LeaveCS],
    Inr (\<lparr>pc = Exited, headTask = None\<rparr>, stopped_heap)) \<and>
   unguarded False
     [EnterCS, Rd Head, Rd Running, SleepBegin, SleepEnd False,
      Stderr ''%s, %s'' [PStr ''SleepConditionVariableCS() failed'', PStr ''timeout''], LeaveCS,
      Rd Head, Rd Running, Rd Head, Rd Running, LeaveCS]
     = [Rd Head, Rd Running, Rd Head, Rd Running] \<and>
   work_run 1
     [Tick WaitOk, Tick WaitOk, Tick WaitOk, OtherSubmit 7 None 0 (Some 5) None,
      Tick (WaitFailed (Some ''timeout'')), Tick WaitOk, OtherTake, Tick WaitOk, Tick WaitOk,
      Tick WaitOk]
     ([], new_worker, idle_heap) =
   ([EnterCS, Rd Head, Rd Running, SleepBegin, SleepEnd False,
     Stderr ''%s, %s'' [PStr ''SleepConditionVariableCS() failed'', PStr ''timeout''], LeaveCS,
     Rd Head, Rd Head, Rd Running, Rd Head, Rd Head],
    Inl NullDeref)"
  by (simp add: run_defs idle_heap_def stopped_heap_def eval_nat_numeral)

text \<open>
  What does hold of the exit, with or without the lock: the worker leaves the loop only
  from the test of line 89, and exactly when it finds there the head null and \<open>running\<close>
  0. And a pass that takes the lock at line 79 and meets no failing wait makes all its
  reads under the lock: it exits on an empty queue of a stopped pool, and takes the head
  record of a queue that is not empty.
\<close>

lemma exit_only_from_test:
  "work_step p r (w, h) = (es, Inr (w', h')) \<Longrightarrow> pc w \<noteq> Exited \<Longrightarrow>
   (pc w' = Exited) =
     (pc w = AtExitTest \<and>
      (\<exists>P. pools h p = Some P \<and> taskQueueHead P = None \<and> running P = 0))"
  by (cases "pc w")
     (auto simp: work_step_def seq_def read_head_def advance_head_def call_task_def free_task_def free_buf_def
           wait_test_def exit_test_def print_last_system_error_def
           split: option.splits prod.splits sum.splits wait_result.splits if_splits)

lemma work_section_exit:
  assumes "pools h p = Some P" and "taskQueueHead P = None" and "running P = 0"
  shows "work_section p h =
     ([EnterCS, Rd Head, Rd Running, Rd Head, Rd Running, LeaveCS],
      Inr (\<lparr>pc = Exited, headTask = None\<rparr>, h))"
  using assms
  by (simp add: work_section_def new_worker_def eval_nat_numeral work_step_def wait_test_def
        exit_test_def seq_def)

lemma work_section_guarded:
  "unguarded False [EnterCS, Rd Head, Rd Running, Rd Head, Rd Running, LeaveCS] = [] \<and>
   unguarded False [EnterCS, Rd Head, Rd Head, Rd Head, Rd Head, Wr Head, LeaveCS] = []"
  by simp

section \<open>Chains of records\<close>

lemma chain_Cons:
  "chain ts x (r # rs) =
     (x = Some (fst r) \<and>
      (\<exists>T. ts (fst r) = Some T \<and> task T = fst (snd r) \<and> taskArgs T = snd (snd r) \<and>
           chain ts (nxt T) rs))"
  by (cases r) (auto split: option.splits)

lemma chain_unique: "chain ts x rs \<Longrightarrow> chain ts x rs' \<Longrightarrow> rs = rs'"
proof (induction rs arbitrary: x rs')
  case Nil
  then show ?case by (cases rs') (auto simp: chain_Cons)
next
  case (Cons r rs)
  from Cons.prems obtain r' rs'' where rs': "rs' = r' # rs''"
    by (cases rs') (auto simp: chain_Cons)
  with Cons.prems have "fst r = fst r'" and "snd r = snd r'"
    by (auto simp: chain_Cons prod_eq_iff)
  then have "r = r'" by (simp add: prod_eq_iff)
  moreover from Cons.prems rs' have "rs = rs''"
    by (auto simp: chain_Cons intro: Cons.IH)
  ultimately show ?case using rs' by simp
qed

lemma chain_suffix: "chain ts x (us @ vs) \<Longrightarrow> \<exists>y. chain ts y vs"
  by (induction us arbitrary: x) (auto simp: chain_Cons)

lemma chain_head_fresh:
  assumes "chain ts x (r # rs)"
  shows "fst r \<notin> fst ` set rs"
proof
  assume "fst r \<in> fst ` set rs"
  then obtain r' where r': "r' \<in> set rs" "fst r' = fst r" by auto
  then obtain us vs where split: "rs = us @ r' # vs" by (auto simp: in_set_conv_decomp)
  from assms obtain T where T: "ts (fst r) = Some T" "chain ts (nxt T) rs"
    by (auto simp: chain_Cons)
  from T(2) split obtain y where "chain ts y (r' # vs)" by (auto dest: chain_suffix)
  with T(1) r'(2) have "chain ts (nxt T) vs" by (auto simp: chain_Cons)
  from chain_unique [OF T(2) this] split show False by simp
qed

lemma chain_live:
  "chain ts x rs \<Longrightarrow> r \<in> set rs \<Longrightarrow>
   \<exists>T. ts (fst r) = Some T \<and> task T = fst (snd r) \<and> taskArgs T = snd (snd r)"
  by (induction rs arbitrary: x) (auto simp: chain_Cons)

lemma chain_update_other:
  "chain ts x rs \<Longrightarrow> a \<notin> fst ` set rs \<Longrightarrow> chain (ts(a := v)) x rs"
  by (induction rs arbitrary: x) (auto simp: chain_Cons)

lemma chain_last:
  "chain ts x rs \<Longrightarrow> rs \<noteq> [] \<Longrightarrow> \<exists>L. ts (fst (last rs)) = Some L \<and> nxt L = None"
proof (induction rs arbitrary: x)
  case Nil
  then show ?case by simp
next
  case (Cons r rs)
  show ?case
  proof (cases "rs = []")
    case True
    with Cons.prems show ?thesis by (auto simp: chain_Cons)
  next
    case False
    with Cons.prems Cons.IH show ?thesis by (auto simp: chain_Cons)
  qed
qed

lemma chain_snoc:
  assumes "chain ts x rs" and "rs \<noteq> []" and "ts (fst (last rs)) = Some L"
    and "t \<notin> fst ` set rs" and "ts t = Some T" and "nxt T = None"
  shows "chain (ts(fst (last rs) \<mapsto> L\<lparr>nxt := Some t\<rparr>)) x (rs @ [(t, task T, taskArgs T)])"
  using assms
proof (induction rs arbitrary: x)
  case Nil
  then show ?case by simp
next
  case (Cons r rs)
  show ?case
  proof (cases "rs = []")
    case True
    with Cons.prems show ?thesis by (auto simp: chain_Cons)
  next
    case False
    from chain_head_fresh [OF Cons.prems(1)] False have neq: "fst r \<noteq> fst (last rs)"
      by (metis image_eqI last_in_set)
    from Cons.prems(1) obtain R where R: "x = Some (fst r)" "ts (fst r) = Some R"
      "task R = fst (snd r)" "taskArgs R = snd (snd r)" "chain ts (nxt R) rs"
      by (auto simp: chain_Cons)
    let ?ts' = "ts(fst (last rs) \<mapsto> L\<lparr>nxt := Some t\<rparr>)"
    from Cons.prems False have IH: "chain ?ts' (nxt R) (rs @ [(t, task T, taskArgs T)])"
      by (intro Cons.IH R(5)) auto
    from neq R(2) have "?ts' (fst r) = Some R" by simp
    with IH R(1,3,4) have "chain ?ts' x (r # (rs @ [(t, task T, taskArgs T)]))"
      unfolding chain_Cons by blast
    moreover from False have "last (r # rs) = last rs" by simp
    ultimately show ?thesis by (simp only: append_Cons)
  qed
qed

section \<open>Submitting\<close>

lemma copy_args_result:
  assumes "copy_args a n m2 h = (es0, Inr (g, h1))"
  shows "tasks h1 = tasks h" and "pools h1 = pools h" and "es0 = []"
    and "a = None \<Longrightarrow> g = None \<and> h1 = h"
    and "a \<noteq> None \<Longrightarrow>
           \<exists>src dst bs. a = Some src \<and> m2 = Some dst \<and> g = Some dst \<and> bufs h src = Some bs \<and>
             n \<le> length bs \<and> h1 = h\<lparr>bufs := (bufs h)(dst \<mapsto> take n bs)\<rparr>"
  using assms
  by (auto simp: copy_args_def seq_def underlying_safe_malloc_def
           split: option.splits if_splits)

lemma queue_at_fresh:
  assumes "queue_at p h rs" and "tasks h t = None"
  shows "t \<notin> fst ` set rs"
proof
  assume "t \<in> fst ` set rs"
  then obtain r where "r \<in> set rs" "fst r = t" by auto
  moreover from assms(1) obtain x where "chain (tasks h) x rs"
    by (auto simp: queue_at_def split: option.splits)
  ultimately have "tasks h t \<noteq> None" by (auto dest: chain_live)
  with assms(2) show False by simp
qed

lemma enqueue_queue:
  assumes q: "queue_at p h rs" and t: "tasks h t = Some T" "nxt T = None"
    and fresh: "t \<notin> fst ` set rs"
  shows "\<exists>es h'. enqueue (Some p) t h = (es, Inr h') \<and>
           queue_at p h' (rs @ [(t, task T, taskArgs T)]) \<and> bufs h' = bufs h \<and>
           dom (tasks h') = dom (tasks h) \<and>
           (\<forall>b. b \<notin> fst ` set rs \<longrightarrow> tasks h' b = tasks h b) \<and>
           (\<forall>q. q \<noteq> p \<longrightarrow> pools h' q = pools h q) \<and>
           map_option running (pools h' p) = map_option running (pools h p)"
proof -
  from q obtain P where P: "pools h p = Some P" "chain (tasks h) (taskQueueHead P) rs"
    "rs \<noteq> [] \<longrightarrow> taskQueueTail P = Some (fst (last rs))"
    by (auto simp: queue_at_def split: option.splits)
  show ?thesis
  proof (cases "rs = []")
    case True
    with P(2) have hd: "taskQueueHead P = None" by simp
    let ?h' = "h\<lparr>pools := (pools h)(p \<mapsto>
                 P\<lparr>taskQueueTail := Some t, taskQueueHead := Some t\<rparr>)\<rparr>"
    from P(1) hd have "enqueue (Some p) t h =
        ([EnterCS, Rd Head, Wr Tail, Wr Head, LeaveCS], Inr ?h')"
      by (simp add: enqueue_def)
    moreover from t True have "queue_at p ?h' (rs @ [(t, task T, taskArgs T)])"
      by (simp add: queue_at_def)
    ultimately show ?thesis using P(1) by simp
  next
    case False
    let ?l = "fst (last rs)"
    from P(3) False have tl: "taskQueueTail P = Some ?l" by simp
    from P(2) False obtain r rs' where "rs = r # rs'" by (cases rs) auto
    with P(2) have hd: "taskQueueHead P = Some (fst r)" by (simp add: chain_Cons)
    from chain_last [OF P(2) False] obtain L where L: "tasks h ?l = Some L" "nxt L = None"
      by blast
    let ?ts' = "(tasks h)(?l \<mapsto> L\<lparr>nxt := Some t\<rparr>)"
    let ?h' = "h\<lparr>tasks := ?ts',
                 pools := (pools h)(p \<mapsto> P\<lparr>taskQueueTail := nxt (L\<lparr>nxt := Some t\<rparr>)\<rparr>)\<rparr>"
    from P(1) hd tl L(1) have e: "enqueue (Some p) t h =
        ([EnterCS, Rd Head, Rd Tail, Rd Tail, Wr Tail, LeaveCS], Inr ?h')"
      by (simp add: enqueue_def)
    from chain_snoc [OF P(2) False L(1) fresh t]
    have "chain ?ts' (taskQueueHead P) (rs @ [(t, task T, taskArgs T)])" .
    then have qa: "queue_at p ?h' (rs @ [(t, task T, taskArgs T)])"
      by (simp add: queue_at_def)
    from False have "?l \<in> fst ` set rs" by simp
    then have other: "\<forall>b. b \<notin> fst ` set rs \<longrightarrow> ?ts' b = tasks h b" by auto
    from L(1) have "dom ?ts' = dom (tasks h)" by auto
    with e qa other P(1) show ?thesis by simp
  qed
qed

lemma add_task_queue:
  assumes q: "queue_at p h rs" and fresh: "tasks h t = None"
    and c: "copy_args a n m2 h = (es0, Inr (g, h1))"
  shows "\<exists>es h'. thread_pool_add_task (Some p) f a n (Some t) m2 h = (es, Inr h') \<and>
           queue_at p h' (rs @ [(t, f, g)]) \<and> bufs h' = bufs h1 \<and>
           tasks h' t = Some \<lparr>task = f, taskArgs = g, nxt = None\<rparr> \<and>
           dom (tasks h') = insert t (dom (tasks h)) \<and>
           (\<forall>b. b \<noteq> t \<longrightarrow> b \<notin> fst ` set rs \<longrightarrow> tasks h' b = tasks h b) \<and>
           (\<forall>q. q \<noteq> p \<longrightarrow> pools h' q = pools h q) \<and>
           map_option running (pools h' p) = map_option running (pools h p)"
proof -
  let ?T = "\<lparr>task = f, taskArgs = g, nxt = None\<rparr>"
  let ?h2 = "h1\<lparr>tasks := (tasks h1)(t \<mapsto> ?T)\<rparr>"
  note fr = queue_at_fresh [OF q fresh]
  from copy_args_result(1,2) [OF c] have same: "tasks h1 = tasks h" "pools h1 = pools h" .
  from q fr same have q2: "queue_at p ?h2 rs"
    by (auto simp: queue_at_def split: option.splits intro: chain_update_other)
  have t2: "tasks ?h2 t = Some ?T" "nxt ?T = None" by simp_all
  from enqueue_queue [OF q2 t2 fr] obtain es h' where
    e: "enqueue (Some p) t ?h2 = (es, Inr h')" and
    r: "queue_at p h' (rs @ [(t, f, g)])" "bufs h' = bufs ?h2" "dom (tasks h') = dom (tasks ?h2)"
      "\<forall>b. b \<notin> fst ` set rs \<longrightarrow> tasks h' b = tasks ?h2 b"
      "\<forall>q. q \<noteq> p \<longrightarrow> pools h' q = pools ?h2 q"
      "map_option running (pools h' p) = map_option running (pools ?h2 p)"
    by auto
  from c e have "thread_pool_add_task (Some p) f a n (Some t) m2 h =
      (es0 @ es @ [WakeOne], Inr h')"
    by (simp add: thread_pool_add_task_def seq_def underlying_safe_malloc_def)
  moreover from r(4) fr have "tasks h' t = Some ?T" by simp
  moreover from r(3) same have "dom (tasks h') = insert t (dom (tasks h))" by simp
  moreover from r(4) same have "\<forall>b. b \<noteq> t \<longrightarrow> b \<notin> fst ` set rs \<longrightarrow> tasks h' b = tasks h b"
    by simp
  ultimately show ?thesis using r(1,2,5,6) same by simp
qed

text \<open>
  C5. Let the pool at \<open>p\<close> hold a well-formed queue, and let \<open>malloc\<close> return memory
  that is not in use (\<open>t\<close> for the record, \<open>dst\<close> for the argument). With a non-null
  argument \<open>src\<close> that holds at least \<open>n\<close> bytes, \<open>thread_pool_add_task\<close> returns, the
  new record has the function, the pointer \<open>dst\<close> and a null \<open>next\<close>, the buffer at
  \<open>dst\<close> holds the first \<open>n\<close> bytes of the caller's buffer, \<open>dst\<close> is not the caller's
  buffer, which is left as it was, and no later write to the caller's buffer changes the
  copy. With a null argument the record has a null argument pointer and no buffer
  changes; and then neither \<open>argsSize\<close> nor what a second \<open>malloc\<close> would return has
  any effect on the outcome of the call.
\<close>

theorem add_task_copies_argument:
  "(queue_at p h rs \<and> tasks h t = None \<and> bufs h dst = None \<and> bufs h src = Some bs \<and>
    n \<le> length bs \<longrightarrow>
      (\<exists>es h'. thread_pool_add_task (Some p) f (Some src) n (Some t) (Some dst) h = (es, Inr h') \<and>
         tasks h' t = Some \<lparr>task = f, taskArgs = Some dst, nxt = None\<rparr> \<and>
         bufs h' dst = Some (take n bs) \<and> dst \<noteq> src \<and> bufs h' src = Some bs \<and>
         (\<forall>bs'. ((bufs h')(src \<mapsto> bs')) dst = Some (take n bs)))) \<and>
   (queue_at p h rs \<and> tasks h t = None \<longrightarrow>
      (\<exists>es h'. thread_pool_add_task (Some p) f None n (Some t) mb h = (es, Inr h') \<and>
         tasks h' t = Some \<lparr>task = f, taskArgs = None, nxt = None\<rparr> \<and> bufs h' = bufs h)) \<and>
   thread_pool_add_task pool f None n mt mb h = thread_pool_add_task pool f None n' mt mb' h"
proof (intro conjI impI)
  assume a: "queue_at p h rs \<and> tasks h t = None \<and> bufs h dst = None \<and>
             bufs h src = Some bs \<and> n \<le> length bs"
  then have c: "copy_args (Some src) n (Some dst) h =
      ([], Inr (Some dst, h\<lparr>bufs := (bufs h)(dst \<mapsto> take n bs)\<rparr>))"
    by (simp add: copy_args_def seq_def underlying_safe_malloc_def)
  from a have neq: "dst \<noteq> src" by auto
  from a add_task_queue [OF _ _ c, of p rs t f] obtain es h' where
    "thread_pool_add_task (Some p) f (Some src) n (Some t) (Some dst) h = (es, Inr h')"
    "bufs h' = (bufs h)(dst \<mapsto> take n bs)"
    "tasks h' t = Some \<lparr>task = f, taskArgs = Some dst, nxt = None\<rparr>"
    by auto
  with a neq show "\<exists>es h'.
      thread_pool_add_task (Some p) f (Some src) n (Some t) (Some dst) h = (es, Inr h') \<and>
      tasks h' t = Some \<lparr>task = f, taskArgs = Some dst, nxt = None\<rparr> \<and>
      bufs h' dst = Some (take n bs) \<and> dst \<noteq> src \<and> bufs h' src = Some bs \<and>
      (\<forall>bs'. ((bufs h')(src \<mapsto> bs')) dst = Some (take n bs))"
    by simp
next
  assume a: "queue_at p h rs \<and> tasks h t = None"
  have c: "copy_args None n mb h = ([], Inr (None, h))" by (simp add: copy_args_def)
  from a add_task_queue [OF _ _ c, of p rs t f]
  show "\<exists>es h'. thread_pool_add_task (Some p) f None n (Some t) mb h = (es, Inr h') \<and>
      tasks h' t = Some \<lparr>task = f, taskArgs = None, nxt = None\<rparr> \<and> bufs h' = bufs h"
    by auto
next
  show "thread_pool_add_task pool f None n mt mb h =
        thread_pool_add_task pool f None n' mt mb' h"
    by (simp add: thread_pool_add_task_def copy_args_def)
qed

theorem add_task_copies_argument_witness:
  "queue_at 1 caller_heap [] \<and> tasks caller_heap 5 = None \<and> bufs caller_heap 6 = None \<and>
   bufs caller_heap 20 = Some [39, 0, 0, 0] \<and> (4::nat) \<le> length [39 :: byte, 0, 0, 0] \<and>
   (\<exists>es h'. thread_pool_add_task (Some 1) 8 (Some 20) 4 (Some 5) (Some 6) caller_heap
               = (es, Inr h') \<and>
      tasks h' 5 = Some \<lparr>task = 8, taskArgs = Some 6, nxt = None\<rparr> \<and>
      bufs h' 6 = Some [39, 0, 0, 0] \<and> bufs h' 20 = Some [39, 0, 0, 0]) \<and>
   (\<exists>es h'. thread_pool_add_task (Some 1) 7 None 4 (Some 5) None caller_heap = (es, Inr h') \<and>
      tasks h' 5 = Some \<lparr>task = 7, taskArgs = None, nxt = None\<rparr> \<and>
      bufs h' = bufs caller_heap)"
proof -
  have pre: "queue_at 1 caller_heap [] \<and> tasks caller_heap 5 = None \<and>
      bufs caller_heap 6 = None \<and> bufs caller_heap 20 = Some [39, 0, 0, 0] \<and>
      (4::nat) \<le> length [39 :: byte, 0, 0, 0]"
    by (simp add: queue_at_def caller_heap_def)
  note inst = add_task_copies_argument [where p = 1 and h = caller_heap and rs = "[]" and t = 5
      and dst = 6 and src = 20 and bs = "[39, 0, 0, 0]" and n = 4 and mb = None]
  from inst [where f = 8, THEN conjunct1, THEN mp, OF pre]
  have 1: "\<exists>es h'. thread_pool_add_task (Some 1) 8 (Some 20) 4 (Some 5) (Some 6) caller_heap
               = (es, Inr h') \<and>
      tasks h' 5 = Some \<lparr>task = 8, taskArgs = Some 6, nxt = None\<rparr> \<and>
      bufs h' 6 = Some [39, 0, 0, 0] \<and> bufs h' 20 = Some [39, 0, 0, 0]"
    by auto
  from pre have "queue_at 1 caller_heap [] \<and> tasks caller_heap 5 = None" by simp
  from inst [where f = 7, THEN conjunct2, THEN conjunct1, THEN mp, OF this]
  have 2: "\<exists>es h'. thread_pool_add_task (Some 1) 7 None 4 (Some 5) None caller_heap = (es, Inr h') \<and>
      tasks h' 5 = Some \<lparr>task = 7, taskArgs = None, nxt = None\<rparr> \<and>
      bufs h' = bufs caller_heap" .
  from pre 1 2 show ?thesis by blast
qed

section \<open>Creation\<close>

lemma spawn_loop_ok:
  "\<forall>k. i \<le> k \<and> k < n \<longrightarrow> ct (nat k) \<noteq> None \<Longrightarrow> 0 \<le> i \<Longrightarrow> pools h p = Some P \<Longrightarrow>
   spawn_loop ct fm p i n h =
     (map Spawn (map (the \<circ> ct) [nat i..<nat n]),
      Inr (h\<lparr>pools := (pools h)(p \<mapsto>
             P\<lparr>threads := threads P @ map (the \<circ> ct) [nat i..<nat n]\<rparr>)\<rparr>))"
proof (induction ct fm p i n h arbitrary: P rule: spawn_loop.induct)
  case (1 ct fm pool i n h)
  show ?case
  proof (cases "i < n")
    case False
    then have "[nat i..<nat n] = []" by simp
    with False "1.prems"(3) show ?thesis
      by (simp add: spawn_loop.simps [of ct fm pool i n h] fun_upd_idem)
  next
    case True
    with "1.prems"(1) obtain t where t: "ct (nat i) = Some t" by (cases "ct (nat i)") auto
    let ?P1 = "P\<lparr>threads := threads P @ [t]\<rparr>"
    let ?h1 = "h\<lparr>pools := (pools h)(pool \<mapsto> ?P1)\<rparr>"
    from "1.prems"(1,2) have "\<forall>k. i + 1 \<le> k \<and> k < n \<longrightarrow> ct (nat k) \<noteq> None" and "0 \<le> i + 1"
      by auto
    moreover have "pools ?h1 pool = Some ?P1" by simp
    ultimately have r0: "spawn_loop ct fm pool (i + 1) n ?h1 =
        (map Spawn (map (the \<circ> ct) [nat (i + 1)..<nat n]),
         Inr (?h1\<lparr>pools := (pools ?h1)(pool \<mapsto>
                ?P1\<lparr>threads := threads ?P1 @ map (the \<circ> ct) [nat (i + 1)..<nat n]\<rparr>)\<rparr>))"
      by (rule "1.IH" [OF True t "1.prems"(3)])
    have eq: "?h1\<lparr>pools := (pools ?h1)(pool \<mapsto>
                ?P1\<lparr>threads := threads ?P1 @ map (the \<circ> ct) [nat (i + 1)..<nat n]\<rparr>)\<rparr> =
        h\<lparr>pools := (pools h)(pool \<mapsto>
                P\<lparr>threads := threads P @ t # map (the \<circ> ct) [nat (i + 1)..<nat n]\<rparr>)\<rparr>"
      by simp
    note r = r0 [unfolded eq]
    from True t "1.prems"(3) have step: "spawn_loop ct fm pool i n h =
        (case spawn_loop ct fm pool (i + 1) n ?h1 of (es, r) \<Rightarrow> (Spawn t # es, r))"
      by (subst spawn_loop.simps) simp
    from True "1.prems"(2) have lst: "[nat i..<nat n] = nat i # [nat (i + 1)..<nat n]"
      by (simp add: upt_conv_Cons nat_add_distrib)
    from lst t have hs: "map (the \<circ> ct) [nat i..<nat n] =
        t # map (the \<circ> ct) [nat (i + 1)..<nat n]"
      by simp
    show ?thesis unfolding step r hs by (simp only: prod.case list.map)
  qed
qed

lemma spawn_loop_fail:
  "i \<le> k \<Longrightarrow> k < n \<Longrightarrow> ct (nat k) = None \<Longrightarrow> pools h p = Some P \<Longrightarrow>
   \<exists>es. spawn_loop ct fm p i n h =
          (es @ fst (print_last_system_error fm ''CreateThread() failed''), Inl ExitFailure)"
proof (induction ct fm p i n h arbitrary: P rule: spawn_loop.induct)
  case (1 ct fm pool i n h)
  from "1.prems" have lt: "i < n" by simp
  show ?case
  proof (cases "ct (nat i)")
    case None
    with lt have "spawn_loop ct fm pool i n h =
        seq (print_last_system_error fm ''CreateThread() failed'') (\<lambda>_. ([], Inl ExitFailure))"
      by (subst spawn_loop.simps) simp
    also have "\<dots> =
        ([] @ fst (print_last_system_error fm ''CreateThread() failed''), Inl ExitFailure)"
      by (cases fm) (simp_all add: seq_def print_last_system_error_def)
    finally have "spawn_loop ct fm pool i n h =
        ([] @ fst (print_last_system_error fm ''CreateThread() failed''), Inl ExitFailure)" .
    then show ?thesis by blast
  next
    case (Some t)
    with "1.prems" have "i \<noteq> k" by auto
    with "1.prems" have le: "i + 1 \<le> k" by simp
    let ?h1 = "h\<lparr>pools := (pools h)(pool \<mapsto> P\<lparr>threads := threads P @ [t]\<rparr>)\<rparr>"
    have "pools ?h1 pool = Some (P\<lparr>threads := threads P @ [t]\<rparr>)" by simp
    from "1.IH" [OF lt Some "1.prems"(4) le "1.prems"(2,3) this]
    obtain es where "spawn_loop ct fm pool (i + 1) n ?h1 =
        (es @ fst (print_last_system_error fm ''CreateThread() failed''), Inl ExitFailure)"
      by blast
    with lt Some "1.prems"(4) have "spawn_loop ct fm pool i n h =
        ((Spawn t # es) @ fst (print_last_system_error fm ''CreateThread() failed''),
         Inl ExitFailure)"
      by (subst spawn_loop.simps) simp
    then show ?thesis by blast
  qed
qed

text \<open>
  C9. \<open>create_thread_pool\<close> has four outcomes and no other. If the first \<open>malloc\<close>
  fails, or the second, the process exits after the message with the function name and
  the line of that call (116, 120). If some \<open>CreateThread\<close> among the first
  \<open>threadNum\<close> fails, the process exits, and the last thing printed is the report of
  \<open>print_last_system_error\<close> for \<open>CreateThread() failed\<close>: that text with the system's
  message, or, when \<open>FormatMessageA\<close> fails too, the function name and line of that
  call. Otherwise the pool is returned: \<open>running\<close> is 1, head and tail are null, and
  the handles stored are those of the \<open>threadNum\<close> threads spawned, one \<open>Spawn\<close> each,
  in order. So a pool is returned only when every allocation and every thread creation
  succeeded, and for a count that is not negative it has exactly that many workers.
\<close>

theorem create_thread_pool_result:
  "(ma = None \<longrightarrow>
      create_thread_pool n ma mb ct fm h =
        ([Stderr ''%s, line: %d: malloc() failed.\<newline>'' [PStr ''create_thread_pool'', PInt 116]],
         Inl ExitFailure)) \<and>
   (ma \<noteq> None \<and> mb = None \<longrightarrow>
      create_thread_pool n ma mb ct fm h =
        ([Wr Running,
          Stderr ''%s, line: %d: malloc() failed.\<newline>'' [PStr ''create_thread_pool'', PInt 120]],
         Inl ExitFailure)) \<and>
   (ma \<noteq> None \<and> mb \<noteq> None \<and> (\<exists>k. k < nat (sint n) \<and> ct k = None) \<longrightarrow>
      (\<exists>es. create_thread_pool n ma mb ct fm h =
         (es @ [case fm of
                  Some msg \<Rightarrow> Stderr ''%s, %s'' [PStr ''CreateThread() failed'', PStr msg]
                | None \<Rightarrow> Stderr ''%s, line: %d: FormatMessageA() failed.\<newline>''
                           [PStr ''print_last_system_error'', PInt 66]],
          Inl ExitFailure))) \<and>
   (ma = Some p \<and> mb \<noteq> None \<and> (\<forall>k. k < nat (sint n) \<longrightarrow> ct k \<noteq> None) \<longrightarrow>
      create_thread_pool n ma mb ct fm h =
        ([Wr Running, Wr Head, Wr Tail] @ map Spawn (map (the \<circ> ct) [0..<nat (sint n)]),
         Inr (p, h\<lparr>pools := (pools h)(p \<mapsto>
                    \<lparr>running = 1, threadNum = n, threads = map (the \<circ> ct) [0..<nat (sint n)],
                     taskQueueHead = None, taskQueueTail = None\<rparr>)\<rparr>)) \<and>
      (0 \<le> sint n \<longrightarrow> int (length (map (the \<circ> ct) [0..<nat (sint n)])) = sint n))"
proof (intro conjI impI)
  assume "ma = None"
  then show "create_thread_pool n ma mb ct fm h =
      ([Stderr ''%s, line: %d: malloc() failed.\<newline>'' [PStr ''create_thread_pool'', PInt 116]],
       Inl ExitFailure)"
    by (simp add: create_thread_pool_def seq_def underlying_safe_malloc_def)
next
  assume "ma \<noteq> None \<and> mb = None"
  then show "create_thread_pool n ma mb ct fm h =
      ([Wr Running,
        Stderr ''%s, line: %d: malloc() failed.\<newline>'' [PStr ''create_thread_pool'', PInt 120]],
       Inl ExitFailure)"
    by (auto simp: create_thread_pool_def seq_def underlying_safe_malloc_def)
next
  assume a: "ma \<noteq> None \<and> mb \<noteq> None \<and> (\<exists>k. k < nat (sint n) \<and> ct k = None)"
  then obtain q arr k where m: "ma = Some q" "mb = Some arr" and k: "k < nat (sint n)" "ct k = None"
    by auto
  let ?h0 = "h\<lparr>pools := (pools h)(q \<mapsto> \<lparr>running = 1, threadNum = n, threads = [],
                taskQueueHead = None, taskQueueTail = None\<rparr>)\<rparr>"
  from k have "0 \<le> int k" "int k < sint n" "ct (nat (int k)) = None" by auto
  then have "\<exists>es. spawn_loop ct fm q 0 (sint n) ?h0 =
       (es @ fst (print_last_system_error fm ''CreateThread() failed''), Inl ExitFailure)"
    by (intro spawn_loop_fail [where k = "int k"]) simp_all
  then obtain es where
    "spawn_loop ct fm q 0 (sint n) ?h0 =
       (es @ fst (print_last_system_error fm ''CreateThread() failed''), Inl ExitFailure)"
    by auto
  with m have "create_thread_pool n ma mb ct fm h =
      (([Wr Running, Wr Head, Wr Tail] @ es) @
         fst (print_last_system_error fm ''CreateThread() failed''), Inl ExitFailure)"
    by (simp add: create_thread_pool_def seq_def underlying_safe_malloc_def)
  moreover have "fst (print_last_system_error fm ''CreateThread() failed'') =
      [case fm of
         Some msg \<Rightarrow> Stderr ''%s, %s'' [PStr ''CreateThread() failed'', PStr msg]
       | None \<Rightarrow> Stderr ''%s, line: %d: FormatMessageA() failed.\<newline>''
                  [PStr ''print_last_system_error'', PInt 66]]"
    by (cases fm) (simp_all add: print_last_system_error_def)
  ultimately show "\<exists>es. create_thread_pool n ma mb ct fm h =
      (es @ [case fm of
               Some msg \<Rightarrow> Stderr ''%s, %s'' [PStr ''CreateThread() failed'', PStr msg]
             | None \<Rightarrow> Stderr ''%s, line: %d: FormatMessageA() failed.\<newline>''
                        [PStr ''print_last_system_error'', PInt 66]],
       Inl ExitFailure)"
    by (metis (no_types, lifting))
next
  assume a: "ma = Some p \<and> mb \<noteq> None \<and> (\<forall>k. k < nat (sint n) \<longrightarrow> ct k \<noteq> None)"
  then obtain arr where m: "ma = Some p" "mb = Some arr" by auto
  let ?P = "\<lparr>running = 1, threadNum = n, threads = [],
             taskQueueHead = None, taskQueueTail = None\<rparr>"
  let ?h0 = "h\<lparr>pools := (pools h)(p \<mapsto> ?P)\<rparr>"
  from a have "\<forall>k. 0 \<le> k \<and> k < sint n \<longrightarrow> ct (nat k) \<noteq> None" by auto
  then have "spawn_loop ct fm p 0 (sint n) ?h0 =
      (map Spawn (map (the \<circ> ct) [nat 0..<nat (sint n)]),
       Inr (?h0\<lparr>pools := (pools ?h0)(p \<mapsto>
              ?P\<lparr>threads := threads ?P @ map (the \<circ> ct) [nat 0..<nat (sint n)]\<rparr>)\<rparr>))"
    by (intro spawn_loop_ok) simp_all
  then have "spawn_loop ct fm p 0 (sint n) ?h0 =
      (map Spawn (map (the \<circ> ct) [0..<nat (sint n)]),
       Inr (?h0\<lparr>pools := (pools ?h0)(p \<mapsto>
              ?P\<lparr>threads := threads ?P @ map (the \<circ> ct) [0..<nat (sint n)]\<rparr>)\<rparr>))"
    by simp
  with m show "create_thread_pool n ma mb ct fm h =
      ([Wr Running, Wr Head, Wr Tail] @ map Spawn (map (the \<circ> ct) [0..<nat (sint n)]),
       Inr (p, h\<lparr>pools := (pools h)(p \<mapsto>
                  \<lparr>running = 1, threadNum = n, threads = map (the \<circ> ct) [0..<nat (sint n)],
                   taskQueueHead = None, taskQueueTail = None\<rparr>)\<rparr>))"
    by (simp add: create_thread_pool_def seq_def underlying_safe_malloc_def)
next
  assume "0 \<le> sint n"
  then show "int (length (map (the \<circ> ct) [0..<nat (sint n)])) = sint n" by simp
qed

theorem create_thread_pool_result_witness:
  "create_thread_pool 4 (Some 1) (Some 2) (\<lambda>k. Some (10 + k)) None empty_heap =
     ([Wr Running, Wr Head, Wr Tail, Spawn 10, Spawn 11, Spawn 12, Spawn 13], Inr (1, idle_heap)) \<and>
   (0::int) \<le> sint (4 :: 32 word) \<and>
   create_thread_pool 4 None (Some 2) (\<lambda>k. Some (10 + k)) None empty_heap =
     ([Stderr ''%s, line: %d: malloc() failed.\<newline>'' [PStr ''create_thread_pool'', PInt 116]],
      Inl ExitFailure) \<and>
   create_thread_pool 4 (Some 1) None (\<lambda>k. Some (10 + k)) None empty_heap =
     ([Wr Running,
       Stderr ''%s, line: %d: malloc() failed.\<newline>'' [PStr ''create_thread_pool'', PInt 120]],
      Inl ExitFailure) \<and>
   (\<exists>es. create_thread_pool 4 (Some 1) (Some 2) (\<lambda>k. if k = 2 then None else Some (10 + k))
            (Some ''no more threads'') empty_heap =
      (es @ [Stderr ''%s, %s'' [PStr ''CreateThread() failed'', PStr ''no more threads'']],
       Inl ExitFailure))"
proof -
  have n: "nat (sint (4 :: 32 word)) = 4" by simp
  have u: "[0..<4] = [0, 1, 2, 3 :: nat]" by code_simp
  have "Some (1::nat) = Some 1 \<and> Some (2::nat) \<noteq> None \<and>
      (\<forall>k. k < nat (sint (4 :: 32 word)) \<longrightarrow> (\<lambda>k. Some (10 + k)) k \<noteq> None)"
    by simp
  from create_thread_pool_result [where n = 4 and ma = "Some 1" and mb = "Some 2"
      and ct = "\<lambda>k. Some (10 + k)" and fm = None and h = empty_heap and p = 1,
      THEN conjunct2, THEN conjunct2, THEN conjunct2, THEN mp, OF this]
  have 1: "create_thread_pool 4 (Some 1) (Some 2) (\<lambda>k. Some (10 + k)) None empty_heap =
     ([Wr Running, Wr Head, Wr Tail, Spawn 10, Spawn 11, Spawn 12, Spawn 13], Inr (1, idle_heap))"
    by (simp add: n u empty_heap_def idle_heap_def)
  from create_thread_pool_result [where n = 4 and ma = None and mb = "Some 2"
      and ct = "\<lambda>k. Some (10 + k)" and fm = None and h = empty_heap, THEN conjunct1]
  have 2: "create_thread_pool 4 None (Some 2) (\<lambda>k. Some (10 + k)) None empty_heap =
     ([Stderr ''%s, line: %d: malloc() failed.\<newline>'' [PStr ''create_thread_pool'', PInt 116]],
      Inl ExitFailure)"
    by simp
  from create_thread_pool_result [where n = 4 and ma = "Some 1" and mb = None
      and ct = "\<lambda>k. Some (10 + k)" and fm = None and h = empty_heap,
      THEN conjunct2, THEN conjunct1]
  have 3: "create_thread_pool 4 (Some 1) None (\<lambda>k. Some (10 + k)) None empty_heap =
     ([Wr Running,
       Stderr ''%s, line: %d: malloc() failed.\<newline>'' [PStr ''create_thread_pool'', PInt 120]],
      Inl ExitFailure)"
    by simp
  have "(2::nat) < nat (sint (4 :: 32 word)) \<and> (if (2::nat) = 2 then None else Some (10 + 2 :: nat)) = None"
    by simp
  then have "Some (1::nat) \<noteq> None \<and> Some (2::nat) \<noteq> None \<and>
      (\<exists>k. k < nat (sint (4 :: 32 word)) \<and> (\<lambda>k. if k = 2 then None else Some (10 + k)) k = None)"
    by blast
  from create_thread_pool_result [where n = 4 and ma = "Some 1" and mb = "Some 2"
      and ct = "\<lambda>k. if k = 2 then None else Some (10 + k)" and fm = "Some ''no more threads''"
      and h = empty_heap,
      THEN conjunct2, THEN conjunct2, THEN conjunct1, THEN mp, OF this]
  have 4: "\<exists>es. create_thread_pool 4 (Some 1) (Some 2) (\<lambda>k. if k = 2 then None else Some (10 + k))
            (Some ''no more threads'') empty_heap =
      (es @ [Stderr ''%s, %s'' [PStr ''CreateThread() failed'', PStr ''no more threads'']],
       Inl ExitFailure)"
    by simp
  from 1 2 3 4 show ?thesis by simp
qed

section \<open>The running flag\<close>

lemma work_step_running:
  "work_step p r (w, h) = (es, Inr (w', h')) \<Longrightarrow>
   map_option running (pools h' p) = map_option running (pools h p)"
  by (cases "pc w")
     (auto simp: work_step_def seq_def read_head_def advance_head_def call_task_def free_task_def free_buf_def
           wait_test_def exit_test_def print_last_system_error_def
           split: option.splits prod.splits sum.splits wait_result.splits if_splits)

lemma add_task_running:
  "thread_pool_add_task (Some p) f a n ma mb h = (es, Inr h') \<Longrightarrow>
   map_option running (pools h' p) = map_option running (pools h p)"
  by (auto simp: thread_pool_add_task_def seq_def enqueue_def copy_args_def
           underlying_safe_malloc_def
           split: option.splits prod.splits sum.splits if_splits)

lemma join_all_running:
  "thread_pool_join_all (Some p) h = (es, Inr h') \<Longrightarrow>
   map_option running (pools h' p) = Some 0 \<and> Wr Running \<notin> set (unguarded False es) \<and>
   (is_running p h \<longrightarrow> Wr Running \<in> set es)"
  by (auto simp: thread_pool_join_all_def is_running_def split: option.splits if_splits)

lemma destroy_gone:
  "thread_pool_destroy (Some p) sch (tm, h) = Some (es, Inr (tm', h')) \<Longrightarrow> pools h' p = None"
  by (auto simp: thread_pool_destroy_def split: option.splits prod.splits sum.splits)

lemma pool_trans_stopped:
  "pool_trans p h h' \<Longrightarrow> \<not> is_running p h \<Longrightarrow> \<not> is_running p h'"
proof (induction rule: pool_trans.induct)
  case (trans_add f a n m1 m2 h es h')
  from add_task_running [OF trans_add.hyps] trans_add.prems show ?case
    by (auto simp: is_running_def split: option.splits)
next
  case (trans_join h es h')
  from join_all_running [OF trans_join.hyps] show ?case
    by (auto simp: is_running_def split: option.splits)
next
  case (trans_work r w h es w' h')
  from work_step_running [OF trans_work.hyps] trans_work.prems show ?case
    by (auto simp: is_running_def split: option.splits)
next
  case (trans_destroy sch tm h es tm' h')
  from destroy_gone [OF trans_destroy.hyps] show ?case
    by (simp add: is_running_def)
qed

text \<open>
  C8. A created pool is running. \<open>thread_pool_join_all\<close> leaves the pool with
  \<open>running\<close> 0, and its write of the flag (there is one if the pool was running) is made
  inside the critical section. No operation on the pool sets the flag again: after any
  sequence of calls of \<open>thread_pool_add_task\<close>, \<open>thread_pool_join_all\<close> and
  \<open>thread_pool_destroy\<close> and of statements of workers, a pool that was not running is
  still not running.
\<close>

theorem running_only_falls:
  "(create_thread_pool n ma mb ct fm g = (es0, Inr (q, g')) \<longrightarrow> is_running q g') \<and>
   (thread_pool_join_all (Some p) h = (es, Inr h1) \<longrightarrow>
      \<not> is_running p h1 \<and> Wr Running \<notin> set (unguarded False es) \<and>
      (is_running p h \<longrightarrow> Wr Running \<in> set es)) \<and>
   (\<not> is_running p h \<and> rtranclp (pool_trans p) h h2 \<longrightarrow> \<not> is_running p h2)"
proof (intro conjI impI)
  assume "create_thread_pool n ma mb ct fm g = (es0, Inr (q, g'))"
  from create_pool [OF this] show "is_running q g'" by (auto simp: is_running_def)
next
  assume j: "thread_pool_join_all (Some p) h = (es, Inr h1)"
  from join_all_running [OF j] show "\<not> is_running p h1"
    by (auto simp: is_running_def split: option.splits)
  from join_all_running [OF j] show "Wr Running \<notin> set (unguarded False es)" by simp
  assume "is_running p h"
  with join_all_running [OF j] show "Wr Running \<in> set es" by simp
next
  assume "\<not> is_running p h \<and> rtranclp (pool_trans p) h h2"
  then have "rtranclp (pool_trans p) h h2" and "\<not> is_running p h" by simp_all
  then show "\<not> is_running p h2"
    by (induction rule: rtranclp_induct) (auto dest: pool_trans_stopped)
qed

theorem running_only_falls_witness:
  "is_running 1 idle_heap \<and>
   thread_pool_join_all (Some 1) idle_heap =
     ([Rd Running, EnterCS, Wr Running, LeaveCS, WakeAll, WaitThreads], Inr stopped_heap) \<and>
   \<not> is_running 1 stopped_heap \<and>
   rtranclp (pool_trans 1) stopped_heap late_heap \<and>
   \<not> is_running 1 late_heap"
proof -
  have c: "create_thread_pool 4 (Some 1) (Some 2) (\<lambda>k. Some (10 + k)) None empty_heap =
     ([Wr Running, Wr Head, Wr Tail, Spawn 10, Spawn 11, Spawn 12, Spawn 13], Inr (1, idle_heap))"
    by (simp add: create_thread_pool_def run_defs spawn_loop.simps empty_heap_def idle_heap_def)
  have j: "thread_pool_join_all (Some 1) idle_heap =
     ([Rd Running, EnterCS, Wr Running, LeaveCS, WakeAll, WaitThreads], Inr stopped_heap)"
    by (simp add: thread_pool_join_all_def idle_heap_def stopped_heap_def)
  have a: "thread_pool_add_task (Some 1) 7 None 0 (Some 5) None stopped_heap =
     ([EnterCS, Rd Head, Wr Tail, Wr Head, LeaveCS, WakeOne], Inr late_heap)"
    by (simp add: run_defs stopped_heap_def late_heap_def)
  have t: "rtranclp (pool_trans 1) stopped_heap late_heap"
    by (rule r_into_rtranclp, rule trans_add, rule a)
  note inst = running_only_falls [where p = 1]
  from inst [THEN conjunct1, THEN mp, OF c] have 1: "is_running 1 idle_heap" .
  from inst [THEN conjunct2, THEN conjunct1, THEN mp, OF j]
  have 2: "\<not> is_running 1 stopped_heap" by simp
  from 2 t have "\<not> is_running 1 stopped_heap \<and> rtranclp (pool_trans 1) stopped_heap late_heap"
    by simp
  from inst [THEN conjunct2, THEN conjunct2, THEN mp, OF this]
  have 3: "\<not> is_running 1 late_heap" .
  from 1 j 2 t 3 show ?thesis by simp
qed

section \<open>Destruction\<close>



text \<open>
  The workers and the submitting threads leave \<open>running\<close> as it is, and a worker that
  has returned from its loop runs no further statement.
\<close>

lemma team_step_running:
  "team_step p a (tm, h) = Inr (tm', h') \<Longrightarrow>
   map_option running (pools h' p) = map_option running (pools h p)"
proof (cases a)
  case (Work i r)
  assume s: "team_step p a (tm, h) = Inr (tm', h')"
  show ?thesis
  proof (cases "length tm \<le> i \<or> blocked i tm")
    case True
    with s Work show ?thesis by (auto split: if_splits)
  next
    case False
    with s Work obtain es w1 where "work_step p r (snd (tm ! i), h) = (es, Inr (w1, h'))"
      by (auto split: prod.splits sum.splits)
    from work_step_running [OF this] show ?thesis .
  qed
next
  case (Add f x n m1 m2)
  assume s: "team_step p a (tm, h) = Inr (tm', h')"
  show ?thesis
  proof (cases "any_holds tm")
    case True
    with s Add show ?thesis by auto
  next
    case False
    with s Add obtain es where "thread_pool_add_task (Some p) f x n m1 m2 h = (es, Inr h')"
      by (auto split: prod.splits sum.splits)
    from add_task_running [OF this] show ?thesis .
  qed
qed


lemma exited_stays:
  "all_exited tm \<Longrightarrow> team_step p (Work i r) (tm, g) = Inr (tm, g)"
proof (cases "length tm \<le> i \<or> blocked i tm")
  case True
  then show ?thesis by auto
next
  case False
  assume "all_exited tm"
  with False have "pc (snd (tm ! i)) = Exited"
    by (auto simp: all_exited_def list_all_length)
  then have "work_step p r (snd (tm ! i), g) = ([], Inr (snd (tm ! i), g))"
    by (simp add: work_step_def)
  with False show ?thesis by simp
qed

lemma enter_when_free_running:
  "enter_when_free p sch (tm, h) = Some (Inr (sch1, tm1, h1)) \<Longrightarrow>
   map_option running (pools h1 p) = map_option running (pools h p)"
proof (induction sch arbitrary: tm h)
  case Nil
  then show ?case by (simp split: if_splits)
next
  case (Cons a sch)
  show ?case
  proof (cases "any_holds tm")
    case False
    with Cons.prems show ?thesis by simp
  next
    case True
    with Cons.prems obtain tm2 h2 where
      s: "team_step p a (tm, h) = Inr (tm2, h2)" and
      r: "enter_when_free p sch (tm2, h2) = Some (Inr (sch1, tm1, h1))"
      by (auto split: sum.splits)
    from Cons.IH [OF r] team_step_running [OF s] show ?thesis by simp
  qed
qed


lemma exit_step_heap:
  "work_step p r (w, h) = (es, Inr (w', h')) \<Longrightarrow> pc w \<noteq> Exited \<Longrightarrow> pc w' = Exited \<Longrightarrow>
   h' = h \<and> map_option taskQueueHead (pools h p) = Some None"
  by (cases "pc w")
     (auto simp: work_step_def seq_def read_head_def advance_head_def call_task_def free_task_def
           free_buf_def wait_test_def exit_test_def print_last_system_error_def
           split: option.splits prod.splits sum.splits wait_result.splits if_splits)

lemma work_run_exited:
  "all_exited tm \<Longrightarrow> list_all is_work sch \<Longrightarrow> team_run p sch (tm, h) = Inr (tm, h)"
proof (induction sch)
  case Nil
  then show ?case by simp
next
  case (Cons a sch)
  from Cons.prems(2) obtain i r where a: "a = Work i r" by (cases a) auto
  from Cons show ?case unfolding a by (simp add: exited_stays del: team_step.simps)
qed

lemma last_exit_empty:
  "team_run p sch (tm, h) = Inr (tm', h') \<Longrightarrow> list_all is_work sch \<Longrightarrow>
   \<not> all_exited tm \<Longrightarrow> all_exited tm' \<Longrightarrow>
   map_option taskQueueHead (pools h' p) = Some None"
proof (induction sch arbitrary: tm h)
  case Nil
  then show ?case by simp
next
  case (Cons a sch)
  from Cons.prems(2) obtain i r where a: "a = Work i r" and w: "list_all is_work sch"
    by (cases a) auto
  from Cons.prems(1) obtain tm1 h1 where
    s: "team_step p (Work i r) (tm, h) = Inr (tm1, h1)" and
    run: "team_run p sch (tm1, h1) = Inr (tm', h')"
    unfolding a by (auto split: sum.splits)
  show ?case
  proof (cases "all_exited tm1")
    case False
    from Cons.IH [OF run w False Cons.prems(4)] show ?thesis .
  next
    case True
    from work_run_exited [OF True w, of p h1] run have eq: "tm' = tm1" "h' = h1" by simp_all
    have moved: "\<not> (length tm \<le> i \<or> blocked i tm)"
    proof
      assume "length tm \<le> i \<or> blocked i tm"
      with s have "tm1 = tm" by (auto split: if_splits)
      with True Cons.prems(3) show False by simp
    qed
    with s obtain es w1 where
      ws: "work_step p r (snd (tm ! i), h) = (es, Inr (w1, h1))" and
      tm1: "tm1 = tm[i := (fst (tm ! i) @ es, w1)]"
      by (auto split: prod.splits sum.splits)
    from moved have i: "i < length tm" by simp
    from True tm1 i have w1: "pc w1 = Exited"
      by (auto simp: all_exited_def list_all_length dest!: spec [of _ i])
    have "pc (snd (tm ! i)) \<noteq> Exited"
    proof
      assume ex: "pc (snd (tm ! i)) = Exited"
      then have "work_step p r (snd (tm ! i), h) = ([], Inr (snd (tm ! i), h))"
        by (simp add: work_step_def)
      with ws have "es = []" "w1 = snd (tm ! i)" by simp_all
      with tm1 have "tm1 = tm" by simp
      with True Cons.prems(3) show False by simp
    qed
    from exit_step_heap [OF ws this w1] eq show ?thesis by simp
  qed
qed

lemma team_step_live:
  assumes "team_step p a (tm, h) = Inr (tm', h')" and "is_running p h" and "\<not> all_exited tm"
  shows "\<not> all_exited tm'"
proof (cases a)
  case (Add f x n m1 m2)
  with assms(1) have "tm' = tm" by (auto split: if_splits prod.splits sum.splits)
  with assms(3) show ?thesis by simp
next
  case (Work i r)
  show ?thesis
  proof (cases "length tm \<le> i \<or> blocked i tm")
    case True
    with assms(1) Work have "tm' = tm" by (auto split: if_splits)
    with assms(3) show ?thesis by simp
  next
    case False
    with assms(1) Work obtain es w1 where
      ws: "work_step p r (snd (tm ! i), h) = (es, Inr (w1, h'))" and
      tm': "tm' = tm[i := (fst (tm ! i) @ es, w1)]"
      by (auto split: prod.splits sum.splits)
    from False have i: "i < length tm" by simp
    from assms(3) obtain j where j: "j < length tm" "pc (snd (tm ! j)) \<noteq> Exited"
      by (auto simp: all_exited_def list_all_length)
    show ?thesis
    proof (cases "j = i")
      case False
      with j tm' have "j < length tm'" "pc (snd (tm' ! j)) \<noteq> Exited" by simp_all
      then show ?thesis by (auto simp: all_exited_def list_all_length)
    next
      case True
      with j have ne: "pc (snd (tm ! i)) \<noteq> Exited" by simp
      from assms(2) have "\<not> (\<exists>P. pools h p = Some P \<and> taskQueueHead P = None \<and> running P = 0)"
        by (auto simp: is_running_def)
      with exit_only_from_test [OF ws ne] have "pc w1 \<noteq> Exited" by simp
      with tm' i have "i < length tm'" "pc (snd (tm' ! i)) \<noteq> Exited" by simp_all
      then show ?thesis by (auto simp: all_exited_def list_all_length)
    qed
  qed
qed

lemma enter_when_free_live:
  "enter_when_free p sch (tm, h) = Some (Inr (sch1, tm1, h1)) \<Longrightarrow> is_running p h \<Longrightarrow>
   \<not> all_exited tm \<Longrightarrow> list_all is_work sch \<Longrightarrow>
   \<not> all_exited tm1 \<and> list_all is_work sch1"
proof (induction sch arbitrary: tm h)
  case Nil
  then show ?case by (simp split: if_splits)
next
  case (Cons a sch)
  show ?case
  proof (cases "any_holds tm")
    case False
    with Cons.prems show ?thesis by simp
  next
    case True
    with Cons.prems(1) obtain tm2 h2 where
      s: "team_step p a (tm, h) = Inr (tm2, h2)" and
      r: "enter_when_free p sch (tm2, h2) = Some (Inr (sch1, tm1, h1))"
      by (auto split: sum.splits)
    from team_step_running [OF s] Cons.prems(2) have "is_running p h2"
      by (auto simp: is_running_def split: option.splits)
    moreover from team_step_live [OF s Cons.prems(2,3)] have "\<not> all_exited tm2" .
    moreover from Cons.prems(4) have "list_all is_work sch" by simp
    ultimately show ?thesis using Cons.IH [OF r] by blast
  qed
qed

text \<open>
  When some worker was still in its loop and nothing is submitted during the wait, the
  queue is empty when the wait returns: the last worker to return found the head null
  in the test of line 89, and no statement ran after that. So the loop of
  \<open>thread_pool_destroy\<close> finds records only if they were submitted after the last
  worker returned, or if the pool had been stopped before.
\<close>

lemma wait_empties_queue:
  assumes "join_all_wait (Some p) sch (tm, h) = Some (es, Inr (tm1, h1))"
    and "is_running p h" and "list_all is_work sch" and "\<not> all_exited tm"
  shows "map_option taskQueueHead (pools h1 p) = Some None"
proof -
  from assms(1,2) obtain sch2 tm2 h2 where
    f: "enter_when_free p sch (tm, h) = Some (Inr (sch2, tm2, h2))"
    by (auto simp: join_all_wait_def split: option.splits sum.splits)
  from enter_when_free_running [OF f] assms(2) have "is_running p h2"
    by (auto simp: is_running_def split: option.splits)
  then obtain P where P: "pools h2 p = Some P" "running P \<noteq> 0"
    by (auto simp: is_running_def split: option.splits)
  let ?h0 = "h2\<lparr>pools := (pools h2)(p \<mapsto> P\<lparr>running := 0\<rparr>)\<rparr>"
  from P have j: "thread_pool_join_all (Some p) h2 =
      ([Rd Running, EnterCS, Wr Running, LeaveCS, WakeAll, WaitThreads], Inr ?h0)"
    by (simp add: thread_pool_join_all_def)
  from assms(1,2) f j have
    r: "team_run p sch2 (tm2, ?h0) = Inr (tm1, h1)" and x: "all_exited tm1"
    by (auto simp: join_all_wait_def split: sum.splits if_splits)
  from enter_when_free_live [OF f assms(2,4,3)] have "\<not> all_exited tm2" "list_all is_work sch2"
    by simp_all
  from last_exit_empty [OF r this(2,1) x] show ?thesis .
qed



section \<open>Order of the dequeues\<close>

text \<open>
  Under the lock the queue is first in, first out: \<open>thread_pool_add_task\<close> appends the
  new record at the tail (\<open>add_task_queue\<close>), and lines 95-96, run one after the other,
  take the head record and leave the rest in order; so does a pass of a worker that
  takes the lock at line 79 and meets no failing wait.
\<close>

lemma pop_head_queue:
  assumes "queue_at p h ((a, f, g) # rs)"
  shows "\<exists>h'. pop_head p h = ([Rd Head, Rd Head, Wr Head], Inr (a, h')) \<and> queue_at p h' rs \<and>
              tasks h' = tasks h \<and> bufs h' = bufs h"
  using assms
  by (auto simp: queue_at_def pop_head_def read_head_def advance_head_def seq_def chain_Cons
           split: option.splits)

lemma work_section_take:
  assumes "pools h p = Some P" and "taskQueueHead P = Some a" and "tasks h a = Some T"
  shows "work_section p h =
     ([EnterCS, Rd Head, Rd Head, Rd Head, Rd Head, Wr Head, LeaveCS],
      Inr (\<lparr>pc = AtCall, headTask = Some a\<rparr>,
           h\<lparr>pools := (pools h)(p \<mapsto> P\<lparr>taskQueueHead := nxt T\<rparr>)\<rparr>))"
  using assms
  by (simp add: work_section_def new_worker_def eval_nat_numeral work_step_def wait_test_def
        exit_test_def read_head_def advance_head_def seq_def)

text \<open>
  C1 says that the workers take the records out of the queue in the order of submission,
  each record exactly once. They do not, by the defect shown for C3 and C4: a worker
  whose wait has failed runs lines 82-96 without the lock, so its lines 95 and 96
  interleave with those of a worker that owns the lock. In this run on the pool at
  address 1, worker 0 sleeps on the empty queue and two tasks are submitted: function 7
  in the record at address 5, then function 8 in the record at address 6. The wait of
  worker 0 returns 0; worker 0 leaves the critical section, passes the tests of lines 82
  and 89 and reads the head at line 95: record 5. Worker 1 enters the critical section,
  which nobody owns, passes the tests and reads the head at line 95: record 5 again.
  Worker 0 runs line 96 and the head moves to record 6; worker 1 runs line 96 and the
  head becomes null. Both workers hold record 5, and record 6 is out of the queue
  though no worker took it: it stays allocated, and its function is not called. Both
  workers then call function 7, and the second of the two to reach line 105 frees a
  record that is already freed.
\<close>

theorem two_workers_take_one_record:
  "team_run 1 race_submit (fresh_team, idle_heap) =
     Inr ([([EnterCS, Rd Head, Rd Running, SleepBegin], \<lparr>pc = Asleep, headTask = None\<rparr>),
           ([], new_worker), ([], new_worker), ([], new_worker)],
          two_task_heap) \<and>
   team_run 1 (race_submit @ race_take) (fresh_team, idle_heap) =
     Inr ([([EnterCS, Rd Head, Rd Running, SleepBegin, SleepEnd False,
             Stderr ''%s, %s'' [PStr ''SleepConditionVariableCS() failed'', PStr ''timeout''],
             LeaveCS, Rd Head, Rd Head, Rd Head, Rd Head, Wr Head],
            \<lparr>pc = AtLeave, headTask = Some 5\<rparr>),
           ([EnterCS, Rd Head, Rd Head, Rd Head, Rd Head, Wr Head],
            \<lparr>pc = AtLeave, headTask = Some 5\<rparr>),
           ([], new_worker), ([], new_worker)],
          lost_heap) \<and>
   team_run 1 (race_submit @ race_take @ race_call) (fresh_team, idle_heap) =
     Inr ([([EnterCS, Rd Head, Rd Running, SleepBegin, SleepEnd False,
             Stderr ''%s, %s'' [PStr ''SleepConditionVariableCS() failed'', PStr ''timeout''],
             LeaveCS, Rd Head, Rd Head, Rd Head, Rd Head, Wr Head, LeaveCS, Call 7 None],
            \<lparr>pc = AtFree, headTask = Some 5\<rparr>),
           ([EnterCS, Rd Head, Rd Head, Rd Head, Rd Head, Wr Head, LeaveCS, Call 7 None],
            \<lparr>pc = AtFree, headTask = Some 5\<rparr>),
           ([], new_worker), ([], new_worker)],
          lost_heap) \<and>
   team_run 1 (race_submit @ race_take @ race_call @ [Work 1 WaitOk, Work 0 WaitOk])
     (fresh_team, idle_heap) = Inl BadPointer"
  by (simp add: race_submit_def race_take_def race_call_def fresh_team_def run_defs team_defs
        idle_heap_def two_task_heap_def lost_heap_def fun_upd_twist)

end
